theory Spec2Isabelle
  imports
    Main
    "HOL-Library.Word"
    "HOL-Library.Finite_Map"
    "HOL-Library.Sublist"
begin

unbundle bit_operations_syntax

section \<open>Data model\<close>

text \<open>
  An embedding of the Go package \<open>event_emitter\<close>: the sharded topic registry
  (\<open>EventEmitter\<close>, \<open>bucket\<close>) and the per-subscriber metadata store (\<open>smap\<close>).

  \<^item> Go's \<open>int64\<close> and \<open>uint64\<close> are 64-bit words; comparisons of \<open>int64\<close> are the signed
    ones (\<open>\<le>s\<close>, \<open><s\<close>), arithmetic wraps around.
  \<^item> A Go \<open>map\<close> is a finite map. Go leaves the order in which \<open>range\<close> visits a map
    unspecified, so every function that ranges over a map takes the order of that visit as
    an argument (a list of keys); \<open>range_order\<close> says that the list names every key of the
    map once.
  \<^item> A subscriber holds a pointer to its metadata store; the stores live in a heap indexed
    by address, so that two subscribers can have the same id and different stores.
  \<^item> Callbacks are caller code. A callback is a function to the error it returns, and every
    call the emitter makes is recorded as an \<open>event\<close>.
  \<^item> A panic of the Go runtime is a value \<open>Inl p\<close>. A loop that may not end is a function
    into \<open>option\<close>, with \<open>None\<close> for a run that does not return.
  \<^item> The mutexes are left out: the operations are taken one at a time. \<open>TopicStatus\<close> and
    \<open>NewSubscriber\<close> play no part in the properties below and are left out as well.
\<close>

type_synonym int64 = "64 word"
type_synonym uint64 = "64 word"

text \<open>Go's \<open>any\<close>: a string, or a value of another dynamic type.\<close>

datatype any = is_AStr: AStr string | AInt int | ANil

text \<open>Go's \<open>error\<close>: \<open>None\<close> is \<open>nil\<close>.\<close>

type_synonym error = "string option"

datatype panic = IndexOutOfRange | InterfaceConversion | MakeSliceCap

definition subTopic :: string where
  "subTopic = ''sub-topic-''"

record Config =
  BucketNum :: int64
  BucketSize :: int64

type_synonym smap = "(string, any) fmap"

text \<open>
  The emitter is generic in the type of its subscribers, which only has to offer
  \<open>GetSubscriberID\<close> and \<open>GetMetadata\<close>. The subscribers here are those of the package,
  \<open>StringSubscriber\<close>: \<open>id'\<close> is the field \<open>id\<close>, \<open>md\<close> the address of its \<open>smap\<close>.
\<close>

record StringSubscriber =
  id' :: string
  md :: nat

abbreviation GetSubscriberID :: "StringSubscriber \<Rightarrow> string" where
  "GetSubscriberID c \<equiv> id' c"

abbreviation GetMetadata :: "StringSubscriber \<Rightarrow> nat" where
  "GetMetadata c \<equiv> md c"

text \<open>
  \<open>eventCallback\<close> returns an error, as \<open>Subscribe\<close> declares its parameter and as
  \<open>publish_e\<close> uses it.
\<close>

type_synonym eventCallback = "StringSubscriber \<Rightarrow> any \<Rightarrow> error"

record topicElement =
  suber :: StringSubscriber
  cb :: eventCallback

record topicField =
  subers :: "(string, topicElement) fmap"

record bucket =
  Size :: int64
  Topics :: "(string, topicField) fmap"

text \<open>
  \<open>seed\<close> stands for \<open>maphash.String(seed, \<cdot>)\<close>, the seeded hash of the standard library,
  fixed when the emitter is made.
\<close>

record EventEmitter =
  conf :: Config
  seed :: "string \<Rightarrow> uint64"
  buckets :: "bucket list"

text \<open>The emitter together with the metadata stores of the subscribers.\<close>

record world =
  emitter :: EventEmitter
  stores :: "nat \<Rightarrow> smap"

text \<open>The calls the emitter makes into caller code.\<close>

datatype event =
    is_Invoke: Invoke eventCallback StringSubscriber any
  | is_CheckSent: CheckSent StringSubscriber
  | is_OnResult: OnResult StringSubscriber error

section \<open>Ranging over a map\<close>

definition range_order :: "('k, 'v) fmap \<Rightarrow> 'k list \<Rightarrow> bool" where
  "range_order m ks \<longleftrightarrow> distinct ks \<and> fset_of_list ks = fmdom m"

text \<open>The entries \<open>for k, v := range m\<close> visits, when it visits the keys in the order \<open>ks\<close>.\<close>

fun go_range :: "('k, 'v) fmap \<Rightarrow> 'k list \<Rightarrow> ('k \<times> 'v) list" where
  "go_range m [] = []"
| "go_range m (k # ks) =
     (case fmlookup m k of
        None \<Rightarrow> go_range m ks
      | Some v \<Rightarrow> (k, v) # go_range m ks)"

section \<open>Configuration\<close>

partial_function (option) toBinaryNumber_loop :: "int64 \<Rightarrow> int64 \<Rightarrow> int64 option" where
  "toBinaryNumber_loop x n = (if x <s n then toBinaryNumber_loop (x * 2) n else Some x)"

declare toBinaryNumber_loop.simps [code]

definition toBinaryNumber :: "int64 \<Rightarrow> int64 option" where
  "toBinaryNumber n = toBinaryNumber_loop 1 n"

text \<open>\<open>Config.init\<close>; \<open>None\<close> when \<open>toBinaryNumber\<close> does not return.\<close>

definition Config_init :: "Config \<Rightarrow> Config option" where
  "Config_init c =
     (let c1 = (if BucketNum c \<le>s 0 then c\<lparr>BucketNum := 16\<rparr> else c);
          c2 = (if BucketSize c1 \<le>s 0 then c1\<lparr>BucketSize := 0\<rparr> else c1)
      in case toBinaryNumber (BucketNum c2) of
           None \<Rightarrow> None
         | Some n \<Rightarrow> Some (c2\<lparr>BucketNum := n\<rparr>))"

section \<open>The metadata store\<close>

definition smap_Load :: "smap \<Rightarrow> string \<Rightarrow> any option" where
  "smap_Load c key = fmlookup c key"

definition smap_Store :: "smap \<Rightarrow> string \<Rightarrow> any \<Rightarrow> smap" where
  "smap_Store c key v = fmupd key v c"

definition smap_Delete :: "smap \<Rightarrow> string \<Rightarrow> smap" where
  "smap_Delete c key = fmdrop key c"

text \<open>
  \<open>smap.Range\<close> over the entries in the order of the visit. The visitor \<open>f\<close> is a closure:
  it takes the state it has captured and returns the continue flag with the new state, or
  panics. The loop stops when \<open>f\<close> returns false.
\<close>

fun Range_loop ::
  "(string \<times> any) list \<Rightarrow> (string \<Rightarrow> any \<Rightarrow> 's \<Rightarrow> panic + bool \<times> 's) \<Rightarrow> 's \<Rightarrow> panic + 's" where
  "Range_loop [] f s = Inr s"
| "Range_loop ((k, v) # kvs) f s =
     (case f k v s of
        Inl p \<Rightarrow> Inl p
      | Inr (continue, s') \<Rightarrow> if \<not> continue then Inr s' else Range_loop kvs f s')"

definition smap_Range ::
  "smap \<Rightarrow> string list \<Rightarrow> (string \<Rightarrow> any \<Rightarrow> 's \<Rightarrow> panic + bool \<times> 's) \<Rightarrow> 's \<Rightarrow> panic + 's" where
  "smap_Range c ks f s = Range_loop (go_range c ks) f s"

section \<open>The bucket\<close>

definition subscribe :: "bucket \<Rightarrow> StringSubscriber \<Rightarrow> string \<Rightarrow> eventCallback \<Rightarrow> bucket" where
  "subscribe c sub topic f =
     (let subId = GetSubscriberID sub;
          ele = \<lparr>suber = sub, cb = f\<rparr>
      in case fmlookup (Topics c) topic of
           None \<Rightarrow> c\<lparr>Topics := fmupd topic \<lparr>subers = fmupd subId ele fmempty\<rparr> (Topics c)\<rparr>
         | Some t \<Rightarrow> c\<lparr>Topics := fmupd topic (t\<lparr>subers := fmupd subId ele (subers t)\<rparr>) (Topics c)\<rparr>)"

definition publish :: "bucket \<Rightarrow> string \<Rightarrow> any \<Rightarrow> string list \<Rightarrow> event list" where
  "publish c topic msg ks =
     (case fmlookup (Topics c) topic of
        None \<Rightarrow> []
      | Some t \<Rightarrow> map (\<lambda>(_, v). Invoke (cb v) (suber v) msg) (go_range (subers t) ks))"

fun publish_e_loop ::
  "(string \<times> topicElement) list \<Rightarrow> any \<Rightarrow> (StringSubscriber \<Rightarrow> bool) \<Rightarrow> event list" where
  "publish_e_loop [] msg checkSent = []"
| "publish_e_loop ((_, v) # kvs) msg checkSent =
     (if \<not> checkSent (suber v)
      then [CheckSent (suber v), Invoke (cb v) (suber v) msg,
            OnResult (suber v) (cb v (suber v) msg)] @ publish_e_loop kvs msg checkSent
      else CheckSent (suber v) # publish_e_loop kvs msg checkSent)"

definition publish_e ::
  "bucket \<Rightarrow> string \<Rightarrow> any \<Rightarrow> (StringSubscriber \<Rightarrow> bool) \<Rightarrow> string list \<Rightarrow> event list" where
  "publish_e c topic msg checkSent ks =
     (case fmlookup (Topics c) topic of
        None \<Rightarrow> []
      | Some t \<Rightarrow> publish_e_loop (go_range (subers t) ks) msg checkSent)"

definition unSubscribe :: "bucket \<Rightarrow> StringSubscriber \<Rightarrow> string \<Rightarrow> bucket" where
  "unSubscribe c sub topic =
     (case fmlookup (Topics c) topic of
        Some v \<Rightarrow>
          c\<lparr>Topics := fmupd topic (v\<lparr>subers := fmdrop (GetSubscriberID sub) (subers v)\<rparr>) (Topics c)\<rparr>
      | None \<Rightarrow> c)"

text \<open>\<open>len\<close> of a map is the number of its keys.\<close>

definition countTopicSubscriber :: "bucket \<Rightarrow> string \<Rightarrow> nat" where
  "countTopicSubscriber c topic =
     (case fmlookup (Topics c) topic of
        None \<Rightarrow> 0
      | Some v \<Rightarrow> fcard (fmdom (subers v)))"

section \<open>The emitter\<close>

text \<open>
  The loop of \<open>New\<close> that appends one empty bucket for every \<open>i\<close> below \<open>BucketNum\<close>. The
  slice has the capacity for all of them, so \<open>append\<close> never allocates.
\<close>

function New_loop :: "Config \<Rightarrow> int64 \<Rightarrow> bucket list \<Rightarrow> bucket list" where
  "New_loop cfg i bs =
     (if i <s BucketNum cfg
      then New_loop cfg (i + 1) (bs @ [\<lparr>Size = BucketSize cfg, Topics = fmempty\<rparr>])
      else bs)"
  by pat_completeness auto

termination New_loop
proof (relation "measure (\<lambda>(cfg, i, bs). nat (sint (BucketNum cfg) - sint i))")
  show "wf (measure (\<lambda>(cfg, i, bs). nat (sint (BucketNum cfg) - sint i)))"
    by simp
next
  fix cfg :: Config and i :: int64 and bs :: "bucket list"
  assume "i <s BucketNum cfg"
  then have less: "sint i < sint (BucketNum cfg)"
    by (simp add: word_sless_alt)
  moreover have "sint (BucketNum cfg) < 2 ^ 63"
    using sint_lt [of "BucketNum cfg"] by simp
  moreover have "- (2 ^ 63) \<le> sint i"
    using sint_ge [of i] by simp
  ultimately have "signed_take_bit 63 (sint i + 1) = sint i + 1"
    by (intro signed_take_bit_int_eq_self) simp_all
  then have "sint (i + 1) = sint i + 1"
    by (simp add: sint_word_ariths)
  with less show "((cfg, i + 1, bs @ [\<lparr>Size = BucketSize cfg, Topics = fmempty\<rparr>]), (cfg, i, bs))
      \<in> measure (\<lambda>(cfg, i, bs). nat (sint (BucketNum cfg) - sint i))"
    by simp
qed

declare New_loop.simps [simp del]

text \<open>
  \<open>make([]*bucket[T], 0, n)\<close> on a 64-bit platform. A pointer takes 8 bytes; the runtime
  panics (\<open>makeslice: cap out of range\<close>) when the capacity is negative, when the size of
  the slice in bytes overflows a 64-bit \<open>uintptr\<close>, or when it is above \<open>maxAlloc\<close>, the
  largest allocation of the runtime. \<open>maxAlloc\<close> is a constant of the platform (\<open>2 ^ 48\<close> on
  64-bit Linux) and is a parameter here. Whether the machine holds that much memory is
  outside the model.
\<close>

definition cap_in_range :: "nat \<Rightarrow> int64 \<Rightarrow> bool" where
  "cap_in_range maxAlloc n \<longleftrightarrow>
     0 \<le> sint n \<and> 8 * sint n < 2 ^ 64 \<and> 8 * sint n \<le> int maxAlloc"

text \<open>
  \<open>New\<close>: \<open>cfg\<close> is \<open>None\<close> for a nil pointer, \<open>sd\<close> is the hash that the fresh seed
  selects. The result is \<open>None\<close> when \<open>Config.init\<close> does not return, and \<open>Some (Inl p)\<close>
  when \<open>make\<close> panics.
\<close>

definition New ::
  "nat \<Rightarrow> (string \<Rightarrow> uint64) \<Rightarrow> Config option \<Rightarrow> (panic + EventEmitter) option" where
  "New maxAlloc sd cfg =
     (case Config_init (case cfg of None \<Rightarrow> \<lparr>BucketNum = 0, BucketSize = 0\<rparr> | Some c \<Rightarrow> c) of
        None \<Rightarrow> None
      | Some c \<Rightarrow>
          if \<not> cap_in_range maxAlloc (BucketNum c) then Some (Inl MakeSliceCap)
          else Some (Inr \<lparr>conf = c, seed = sd, buckets = New_loop c 0 []\<rparr>))"

text \<open>
  \<open>getBucket\<close> returns the index of the bucket it points to; indexing the slice of buckets
  out of range panics.
\<close>

definition getBucket :: "EventEmitter \<Rightarrow> string \<Rightarrow> panic + nat" where
  "getBucket c topic =
     (let i = seed c topic AND (BucketNum (conf c) - 1)
      in if unat i < length (buckets c) then Inr (unat i) else Inl IndexOutOfRange)"

text \<open>Running a method that mutates the bucket \<open>getBucket\<close> points to.\<close>

definition on_bucket :: "world \<Rightarrow> string \<Rightarrow> (bucket \<Rightarrow> bucket) \<Rightarrow> panic + world" where
  "on_bucket w topic g =
     (case getBucket (emitter w) topic of
        Inl p \<Rightarrow> Inl p
      | Inr i \<Rightarrow>
          Inr (w\<lparr>emitter := (emitter w)\<lparr>buckets := (buckets (emitter w))[i := g (buckets (emitter w) ! i)]\<rparr>\<rparr>))"

text \<open>A method of the store of a subscriber, through the pointer \<open>GetMetadata\<close> returns.\<close>

definition on_metadata :: "world \<Rightarrow> StringSubscriber \<Rightarrow> (smap \<Rightarrow> smap) \<Rightarrow> world" where
  "on_metadata w sub g = w\<lparr>stores := (stores w)(GetMetadata sub := g (stores w (GetMetadata sub)))\<rparr>"

definition Publish :: "EventEmitter \<Rightarrow> string \<Rightarrow> any \<Rightarrow> string list \<Rightarrow> panic + event list" where
  "Publish c topic msg ks =
     (case getBucket c topic of
        Inl p \<Rightarrow> Inl p
      | Inr i \<Rightarrow> Inr (publish (buckets c ! i) topic msg ks))"

definition PublishE ::
  "EventEmitter \<Rightarrow> string \<Rightarrow> any \<Rightarrow> (StringSubscriber \<Rightarrow> bool) \<Rightarrow> string list \<Rightarrow> panic + event list" where
  "PublishE c topic msg checkSent ks =
     (case getBucket c topic of
        Inl p \<Rightarrow> Inl p
      | Inr i \<Rightarrow> Inr (publish_e (buckets c ! i) topic msg checkSent ks))"

definition Subscribe :: "world \<Rightarrow> StringSubscriber \<Rightarrow> string \<Rightarrow> eventCallback \<Rightarrow> panic + world" where
  "Subscribe w sub topic f =
     on_bucket (on_metadata w sub (\<lambda>m. smap_Store m (subTopic @ topic) (AStr topic))) topic
       (\<lambda>b. subscribe b sub topic f)"

definition UnSubscribe :: "world \<Rightarrow> StringSubscriber \<Rightarrow> string \<Rightarrow> panic + world" where
  "UnSubscribe w sub topic =
     on_bucket (on_metadata w sub (\<lambda>m. smap_Delete m (subTopic @ topic))) topic
       (\<lambda>b. unSubscribe b sub topic)"

text \<open>
  The closure that \<open>UnSubscribeAll\<close> and \<open>GetTopicsBySubscriber\<close> pass to \<open>Range\<close>: it
  appends \<open>value.(string)\<close> to the captured slice; the type assertion panics on a value
  that is not a string.
\<close>

definition collect_topic :: "string \<Rightarrow> any \<Rightarrow> string list \<Rightarrow> panic + bool \<times> string list" where
  "collect_topic key v topics =
     (if prefix subTopic key
      then (case v of AStr t \<Rightarrow> Inr (True, topics @ [t]) | _ \<Rightarrow> Inl InterfaceConversion)
      else Inr (True, topics))"

fun UnSubscribeAll_loop :: "world \<Rightarrow> StringSubscriber \<Rightarrow> string list \<Rightarrow> panic + world" where
  "UnSubscribeAll_loop w sub [] = Inr w"
| "UnSubscribeAll_loop w sub (topic # topics) =
     (case on_bucket (on_metadata w sub (\<lambda>m. smap_Delete m (subTopic @ topic))) topic
             (\<lambda>b. unSubscribe b sub topic) of
        Inl p \<Rightarrow> Inl p
      | Inr w' \<Rightarrow> UnSubscribeAll_loop w' sub topics)"

definition UnSubscribeAll :: "world \<Rightarrow> StringSubscriber \<Rightarrow> string list \<Rightarrow> panic + world" where
  "UnSubscribeAll w sub ks =
     (case smap_Range (stores w (GetMetadata sub)) ks collect_topic [] of
        Inl p \<Rightarrow> Inl p
      | Inr topics \<Rightarrow> UnSubscribeAll_loop w sub topics)"

definition GetTopicsBySubscriber :: "world \<Rightarrow> StringSubscriber \<Rightarrow> string list \<Rightarrow> panic + string list" where
  "GetTopicsBySubscriber w sub ks =
     smap_Range (stores w (GetMetadata sub)) ks collect_topic []"

definition CountSubscriberByTopic :: "EventEmitter \<Rightarrow> string \<Rightarrow> panic + nat" where
  "CountSubscriberByTopic c topic =
     (case getBucket c topic of
        Inl p \<Rightarrow> Inl p
      | Inr i \<Rightarrow> Inr (countTopicSubscriber (buckets c ! i) topic))"

section \<open>Sequences of operations\<close>

text \<open>
  The public operations that take part in a run. An operation that ranges over a map
  carries the order of that visit.
\<close>

datatype operation =
    OpSubscribe StringSubscriber string eventCallback
  | OpUnSubscribe StringSubscriber string
  | OpUnSubscribeAll StringSubscriber "string list"
  | OpPublish string any "string list"
  | OpPublishE string any "StringSubscriber \<Rightarrow> bool" "string list"

fun perform :: "world \<Rightarrow> operation \<Rightarrow> panic + world" where
  "perform w (OpSubscribe sub topic f) = Subscribe w sub topic f"
| "perform w (OpUnSubscribe sub topic) = UnSubscribe w sub topic"
| "perform w (OpUnSubscribeAll sub ks) = UnSubscribeAll w sub ks"
| "perform w (OpPublish topic msg ks) =
     (case Publish (emitter w) topic msg ks of Inl p \<Rightarrow> Inl p | Inr _ \<Rightarrow> Inr w)"
| "perform w (OpPublishE topic msg checkSent ks) =
     (case PublishE (emitter w) topic msg checkSent ks of Inl p \<Rightarrow> Inl p | Inr _ \<Rightarrow> Inr w)"

fun perform_all :: "world \<Rightarrow> operation list \<Rightarrow> panic + world" where
  "perform_all w [] = Inr w"
| "perform_all w (x # xs) =
     (case perform w x of Inl p \<Rightarrow> Inl p | Inr w' \<Rightarrow> perform_all w' xs)"

section \<open>Properties of states\<close>

text \<open>
  What \<open>New\<close> establishes and every operation keeps: the slice holds \<open>BucketNum\<close> buckets,
  and there is at least one.
\<close>

definition wf_emitter :: "EventEmitter \<Rightarrow> bool" where
  "wf_emitter c \<longleftrightarrow> BucketNum (conf c) \<noteq> 0 \<and> length (buckets c) = unat (BucketNum (conf c))"

text \<open>The registration map of a topic in a bucket; empty when the bucket has none.\<close>

definition registered :: "bucket \<Rightarrow> string \<Rightarrow> (string, topicElement) fmap" where
  "registered c topic = (case fmlookup (Topics c) topic of None \<Rightarrow> fmempty | Some t \<Rightarrow> subers t)"

text \<open>The registration map of a topic in the bucket the emitter resolves it to.\<close>

definition registration :: "EventEmitter \<Rightarrow> string \<Rightarrow> (string, topicElement) fmap" where
  "registration c topic =
     (case getBucket c topic of Inl _ \<Rightarrow> fmempty | Inr i \<Rightarrow> registered (buckets c ! i) topic)"

text \<open>Every entry of every registration map is stored under the id of its subscriber.\<close>

definition keyed_by_id :: "EventEmitter \<Rightarrow> bool" where
  "keyed_by_id c \<longleftrightarrow>
     (\<forall>topic k v. fmlookup (registration c topic) k = Some v \<longrightarrow> k = GetSubscriberID (suber v))"

text \<open>
  Every entry of a store whose key starts with \<open>subTopic\<close> is one that \<open>Subscribe\<close> wrote:
  its value is the topic that follows the prefix in the key.
\<close>

definition written_by_Subscribe :: "smap \<Rightarrow> bool" where
  "written_by_Subscribe m \<longleftrightarrow>
     fmpred (\<lambda>key v. prefix subTopic key \<longrightarrow> v = AStr (drop (length subTopic) key)) m"

text \<open>Every entry of a store whose key starts with \<open>subTopic\<close> holds a string.\<close>

definition string_topics :: "smap \<Rightarrow> bool" where
  "string_topics m \<longleftrightarrow> fmpred (\<lambda>key v. prefix subTopic key \<longrightarrow> is_AStr v) m"

text \<open>
  What the operations keep of a world: the emitter is well formed, registrations are stored
  under the id of their subscriber, and the reserved keys of every store hold what
  \<open>Subscribe\<close> wrote.
\<close>

definition good_world :: "world \<Rightarrow> bool" where
  "good_world w \<longleftrightarrow>
     wf_emitter (emitter w) \<and> keyed_by_id (emitter w) \<and> (\<forall>a. written_by_Subscribe (stores w a))"



text \<open>The order an operation carries is an order of the map it ranges over.\<close>

fun visit_ok :: "world \<Rightarrow> operation \<Rightarrow> bool" where
  "visit_ok w (OpSubscribe sub topic f) = True"
| "visit_ok w (OpUnSubscribe sub topic) = True"
| "visit_ok w (OpUnSubscribeAll sub ks) = range_order (stores w (GetMetadata sub)) ks"
| "visit_ok w (OpPublish topic msg ks) = range_order (registration (emitter w) topic) ks"
| "visit_ok w (OpPublishE topic msg checkSent ks) = range_order (registration (emitter w) topic) ks"

fun visits_ok :: "world \<Rightarrow> operation list \<Rightarrow> bool" where
  "visits_ok w [] = True"
| "visits_ok w (x # xs) =
     (visit_ok w x \<and> (case perform w x of Inl _ \<Rightarrow> True | Inr w' \<Rightarrow> visits_ok w' xs))"

text \<open>The event is a call of a callback with the subscriber \<open>S\<close>.\<close>

fun invoked_for :: "StringSubscriber \<Rightarrow> event \<Rightarrow> bool" where
  "invoked_for S (Invoke f s m) = (s = S)"
| "invoked_for S (CheckSent s) = False"
| "invoked_for S (OnResult s e) = False"

section \<open>An example state\<close>

text \<open>
  An emitter of two buckets whose hash is the length of the topic. Subscriber \<open>A\<close> is
  subscribed to \<open>test\<close> and \<open>greet\<close>, subscriber \<open>B\<close> to \<open>test\<close>; the callback of \<open>A\<close> for
  \<open>test\<close> returns an error. \<open>ex_C\<close> has the id of \<open>A\<close> and a store of its own.
\<close>

definition ex_seed :: "string \<Rightarrow> uint64" where
  "ex_seed topic = of_nat (length topic)"

definition ex_A :: StringSubscriber where
  "ex_A = \<lparr>id' = ''A'', md = 0\<rparr>"

definition ex_B :: StringSubscriber where
  "ex_B = \<lparr>id' = ''B'', md = 1\<rparr>"

definition ex_C :: StringSubscriber where
  "ex_C = \<lparr>id' = ''A'', md = 2\<rparr>"

definition ex_ok :: eventCallback where
  "ex_ok = (\<lambda>_ _. None)"

definition ex_fail :: eventCallback where
  "ex_fail = (\<lambda>_ _. Some ''failed'')"

definition ex_new :: world where
  "ex_new =
     \<lparr>emitter = \<lparr>conf = \<lparr>BucketNum = 2, BucketSize = 0\<rparr>, seed = ex_seed,
                  buckets = [\<lparr>Size = 0, Topics = fmempty\<rparr>, \<lparr>Size = 0, Topics = fmempty\<rparr>]\<rparr>,
      stores = (\<lambda>_. fmempty)\<rparr>"

definition ex_emitter :: EventEmitter where
  "ex_emitter =
     \<lparr>conf = \<lparr>BucketNum = 2, BucketSize = 0\<rparr>, seed = ex_seed,
      buckets =
        [\<lparr>Size = 0,
          Topics = fmupd ''test''
            \<lparr>subers = fmupd ''B'' \<lparr>suber = ex_B, cb = ex_ok\<rparr>
                        (fmupd ''A'' \<lparr>suber = ex_A, cb = ex_fail\<rparr> fmempty)\<rparr> fmempty\<rparr>,
         \<lparr>Size = 0,
          Topics = fmupd ''greet''
            \<lparr>subers = fmupd ''A'' \<lparr>suber = ex_A, cb = ex_ok\<rparr> fmempty\<rparr> fmempty\<rparr>]\<rparr>"

definition ex_world :: world where
  "ex_world =
     \<lparr>emitter = ex_emitter,
      stores = (\<lambda>_. fmempty)
        (0 := fmupd ''sub-topic-greet'' (AStr ''greet'')
                (fmupd ''sub-topic-test'' (AStr ''test'') fmempty),
         1 := fmupd ''sub-topic-test'' (AStr ''test'') fmempty)\<rparr>"

text \<open>The fresh world after \<open>A\<close> has subscribed to the empty topic.\<close>

definition ex_empty_topic :: world where
  "ex_empty_topic =
     \<lparr>emitter = \<lparr>conf = \<lparr>BucketNum = 2, BucketSize = 0\<rparr>, seed = ex_seed,
                  buckets =
                    [\<lparr>Size = 0,
                      Topics = fmupd []
                        \<lparr>subers = fmupd ''A'' \<lparr>suber = ex_A, cb = ex_ok\<rparr> fmempty\<rparr> fmempty\<rparr>,
                     \<lparr>Size = 0, Topics = fmempty\<rparr>]\<rparr>,
      stores = (\<lambda>_. fmempty)(0 := fmupd ''sub-topic-'' (AStr []) fmempty)\<rparr>"

text \<open>The example state after the caller has stored a number under a reserved key of \<open>B\<close>.\<close>

definition ex_caller_stored :: world where
  "ex_caller_stored =
     ex_world\<lparr>stores := (stores ex_world)
       (1 := fmupd ''sub-topic-x'' (AInt 7) (stores ex_world 1))\<rparr>"


section \<open>Lemmas\<close>

subsection \<open>Ranging\<close>

lemma go_range_keys: "map fst (go_range m ks) = filter (\<lambda>k. k |\<in>| fmdom m) ks"
  by (induction ks) (auto split: option.splits simp: fmlookup_dom_iff)

lemma go_range_lookup: "(k, v) \<in> set (go_range m ks) \<longleftrightarrow> k \<in> set ks \<and> fmlookup m k = Some v"
  by (induction ks) (auto split: option.splits)

lemma range_order_mem: "range_order m ks \<Longrightarrow> k \<in> set ks \<longleftrightarrow> k |\<in>| fmdom m"
proof -
  assume "range_order m ks"
  then have "fset_of_list ks = fmdom m" by (simp add: range_order_def)
  then have "k |\<in>| fset_of_list ks \<longleftrightarrow> k |\<in>| fmdom m" by simp
  then show ?thesis by (simp add: fset_of_list_elem)
qed

lemma range_order_keys: "range_order m ks \<Longrightarrow> map fst (go_range m ks) = ks"
proof -
  assume "range_order m ks"
  then have "\<forall>k\<in>set ks. k |\<in>| fmdom m" by (simp add: range_order_mem)
  then have "filter (\<lambda>k. k |\<in>| fmdom m) ks = ks" by (rule filter_True)
  then show ?thesis by (simp add: go_range_keys)
qed

lemma range_order_length: "range_order m ks \<Longrightarrow> length ks = fcard (fmdom m)"
proof -
  assume r: "range_order m ks"
  then have "distinct ks" and "fset_of_list ks = fmdom m" by (simp_all add: range_order_def)
  have "fset (fset_of_list ks) = set ks" by (rule fset_of_list.rep_eq)
  with \<open>fset_of_list ks = fmdom m\<close> have "fset (fmdom m) = set ks" by simp
  moreover have "card (set ks) = length ks" using \<open>distinct ks\<close> by (rule distinct_card)
  ultimately show ?thesis by (simp add: fcard.rep_eq)
qed

lemma range_order_entries:
  "range_order m ks \<Longrightarrow> (k, v) \<in> set (go_range m ks) \<longleftrightarrow> fmlookup m k = Some v"
  by (auto simp: go_range_lookup range_order_mem fmlookup_dom_iff)

lemma go_range_all2:
  "list_all2 (\<lambda>k e. fst e = k \<and> fmlookup m k = Some (snd e)) (filter (\<lambda>k. k |\<in>| fmdom m) ks) (go_range m ks)"
  by (induction ks) (auto split: option.splits simp: fmlookup_dom_iff)

lemma range_order_all2:
  "range_order m ks \<Longrightarrow> list_all2 (\<lambda>k e. fst e = k \<and> fmlookup m k = Some (snd e)) ks (go_range m ks)"
  using go_range_all2 [of m ks] range_order_keys [of m ks] by (simp add: go_range_keys)

lemma go_range_empty: "go_range fmempty ks = []"
  by (induction ks) auto

lemma range_order_empty: "range_order fmempty ks \<Longrightarrow> ks = []"
proof -
  assume "range_order fmempty ks"
  then have "\<forall>k. k \<notin> set ks" by (simp add: range_order_mem [of fmempty ks])
  then show "ks = []" by (cases ks) auto
qed

subsection \<open>Buckets\<close>

lemma registered_subscribe:
  "registered (subscribe c S T f) T' =
     (if T' = T then fmupd (id' S) \<lparr>suber = S, cb = f\<rparr> (registered c T) else registered c T')"
  by (auto simp: registered_def subscribe_def Let_def split: option.splits)

lemma registered_unSubscribe:
  "registered (unSubscribe c S T) T' =
     (if T' = T then fmdrop (id' S) (registered c T) else registered c T')"
  by (auto simp: registered_def unSubscribe_def split: option.splits)

lemma countTopicSubscriber_registered:
  "countTopicSubscriber c T = fcard (fmdom (registered c T))"
  by (simp add: countTopicSubscriber_def registered_def split: option.splits)

lemma publish_registered:
  "publish c T msg ks = map (\<lambda>(_, v). Invoke (cb v) (suber v) msg) (go_range (registered c T) ks)"
  by (simp add: publish_def registered_def go_range_empty split: option.splits)

lemma publish_e_registered:
  "publish_e c T msg chk ks = publish_e_loop (go_range (registered c T) ks) msg chk"
  by (simp add: publish_e_def registered_def go_range_empty split: option.splits)

lemma fmupd_same: "fmlookup m k = Some v \<Longrightarrow> fmupd k v m = m"
  by (rule fmap_ext) auto

lemma unSubscribe_idle:
  "id' S |\<notin>| fmdom (registered c T) \<Longrightarrow> unSubscribe c S T = c"
  by (auto simp: registered_def unSubscribe_def fmdrop_idle fmupd_same split: option.splits)

subsection \<open>The emitter\<close>

lemma getBucket_wf:
  assumes "wf_emitter c"
  shows "\<exists>i. i < length (buckets c) \<and> getBucket c T = Inr i"
proof -
  let ?n = "BucketNum (conf c)"
  have n: "?n \<noteq> 0" and len: "length (buckets c) = unat ?n"
    using assms by (simp_all add: wf_emitter_def)
  have "seed c T AND (?n - 1) \<le> ?n - 1" by (rule word_and_le1)
  then have "unat (seed c T AND (?n - 1)) \<le> unat (?n - 1)" by (simp only: word_le_nat_alt)
  moreover have "unat (?n - 1) = unat ?n - 1"
    using n by (rule unat_minus_one)
  moreover have "0 < unat ?n" using n by (simp add: unat_gt_0)
  ultimately have "unat (seed c T AND (?n - 1)) < length (buckets c)"
    using len by linarith
  then show ?thesis by (simp add: getBucket_def Let_def)
qed


lemma getBucket_buckets_update:
  "length bs = length (buckets c) \<Longrightarrow> getBucket (c\<lparr>buckets := bs\<rparr>) T = getBucket c T"
  by (simp add: getBucket_def)

lemma on_bucket_effect:
  assumes wf: "wf_emitter (emitter w)"
    and g: "\<And>b T'. registered (g b) T' = (if T' = T then F (registered b T) else registered b T')"
  shows "\<exists>w'. on_bucket w T g = Inr w' \<and> wf_emitter (emitter w') \<and> stores w' = stores w \<and>
           (\<forall>T'. registration (emitter w') T' =
              (if T' = T then F (registration (emitter w) T) else registration (emitter w) T'))"
proof -
  let ?c = "emitter w"
  from getBucket_wf [OF wf] obtain i where i: "i < length (buckets ?c)" "getBucket ?c T = Inr i"
    by blast
  let ?bs = "(buckets ?c)[i := g (buckets ?c ! i)]"
  let ?w' = "w\<lparr>emitter := ?c\<lparr>buckets := ?bs\<rparr>\<rparr>"
  have run: "on_bucket w T g = Inr ?w'" using i by (simp add: on_bucket_def)
  have wf': "wf_emitter (emitter ?w')" using wf by (simp add: wf_emitter_def)
  have reg: "registration (emitter ?w') T' =
      (if T' = T then F (registration ?c T) else registration ?c T')" for T'
  proof -
    from getBucket_wf [OF wf] obtain j where j: "j < length (buckets ?c)" "getBucket ?c T' = Inr j"
      by blast
    have gb: "getBucket (emitter ?w') T' = Inr j" using j by (simp add: getBucket_buckets_update)
    show ?thesis
    proof (cases "j = i")
      case True
      then show ?thesis using i j gb by (auto simp: registration_def g)
    next
      case False
      then have "T' \<noteq> T" using i j by auto
      with False show ?thesis using i j gb by (simp add: registration_def)
    qed
  qed
  show ?thesis using run wf' reg by (intro exI [of _ ?w']) simp
qed

lemma Subscribe_effect:
  assumes wf: "wf_emitter (emitter w)"
  shows "\<exists>w'. Subscribe w S T f = Inr w' \<and> wf_emitter (emitter w') \<and>
           stores w' = (stores w)(md S := fmupd (subTopic @ T) (AStr T) (stores w (md S))) \<and>
           (\<forall>T'. registration (emitter w') T' =
              (if T' = T then fmupd (id' S) \<lparr>suber = S, cb = f\<rparr> (registration (emitter w) T)
               else registration (emitter w) T'))"
proof -
  let ?w1 = "on_metadata w S (\<lambda>m. smap_Store m (subTopic @ T) (AStr T))"
  have wf1: "wf_emitter (emitter ?w1)" using wf by (simp add: on_metadata_def)
  from on_bucket_effect [OF wf1, of "\<lambda>b. subscribe b S T f" T
      "fmupd (id' S) \<lparr>suber = S, cb = f\<rparr>"]
  show ?thesis
    by (simp add: Subscribe_def registered_subscribe on_metadata_def smap_Store_def
        cong del: if_weak_cong)
qed

lemma UnSubscribe_effect:
  assumes wf: "wf_emitter (emitter w)"
  shows "\<exists>w'. UnSubscribe w S T = Inr w' \<and> wf_emitter (emitter w') \<and>
           stores w' = (stores w)(md S := fmdrop (subTopic @ T) (stores w (md S))) \<and>
           (\<forall>T'. registration (emitter w') T' =
              (if T' = T then fmdrop (id' S) (registration (emitter w) T)
               else registration (emitter w) T'))"
proof -
  let ?w1 = "on_metadata w S (\<lambda>m. smap_Delete m (subTopic @ T))"
  have wf1: "wf_emitter (emitter ?w1)" using wf by (simp add: on_metadata_def)
  from on_bucket_effect [OF wf1, of "\<lambda>b. unSubscribe b S T" T "fmdrop (id' S)"]
  show ?thesis
    by (simp add: UnSubscribe_def registered_unSubscribe on_metadata_def smap_Delete_def
        cong del: if_weak_cong)
qed

lemma UnSubscribe_noop:
  assumes wf: "wf_emitter (emitter w)"
    and key: "subTopic @ T |\<notin>| fmdom (stores w (md S))"
    and reg: "id' S |\<notin>| fmdom (registration (emitter w) T)"
  shows "UnSubscribe w S T = Inr w"
proof -
  let ?w1 = "on_metadata w S (\<lambda>m. smap_Delete m (subTopic @ T))"
  have w1: "?w1 = w" using key by (simp add: on_metadata_def smap_Delete_def fmdrop_idle)
  from getBucket_wf [OF wf] obtain i where i: "i < length (buckets (emitter w))"
    "getBucket (emitter w) T = Inr i" by blast
  then have "id' S |\<notin>| fmdom (registered (buckets (emitter w) ! i) T)"
    using reg by (simp add: registration_def)
  then have "unSubscribe (buckets (emitter w) ! i) S T = buckets (emitter w) ! i"
    by (rule unSubscribe_idle)
  then show ?thesis using i by (simp add: UnSubscribe_def w1 on_bucket_def)
qed

subsection \<open>Rounding the number of buckets\<close>

lemma sint_pow2_small: "k \<le> 62 \<Longrightarrow> sint ((2::int64) ^ k) = 2 ^ k"
proof -
  assume k: "k \<le> 62"
  have le: "(2::int) ^ k \<le> 2 ^ 62" using k by (intro power_increasing) simp_all
  have "sint ((2::int64) ^ k) = sint (word_of_int (2 ^ k) :: int64)" by simp
  also have "\<dots> = (2 ^ k + 2 ^ 63) mod 2 ^ 64 - 2 ^ 63"
    by (simp only: int_word_sint) simp
  also have "(2 ^ k + 2 ^ 63) mod (2 ^ 64 :: int) = 2 ^ k + 2 ^ 63"
    using le by (intro mod_pos_pos_trivial) simp_all
  finally show ?thesis by simp
qed

lemma sint_pow2_le: "sint ((2::int64) ^ k) \<le> 2 ^ 62"
proof -
  consider "k \<le> 62" | "k = 63" | "64 \<le> k" by linarith
  then show ?thesis
  proof cases
    case 1
    then have "(2::int) ^ k \<le> 2 ^ 62" by (intro power_increasing) simp_all
    with 1 show ?thesis by (simp add: sint_pow2_small)
  next
    case 2
    then show ?thesis by simp
  next
    case 3
    then have z: "(2::int64) ^ k = 0" by (simp add: exp_eq_zero_iff)
    show ?thesis unfolding z by simp
  qed
qed

text \<open>
  Above \<open>2 ^ 62\<close> the loop never exits: \<open>x\<close> stays a power of two modulo \<open>2 ^ 64\<close>
  (it wraps to \<open>- 2 ^ 63\<close> and then to \<open>0\<close>), and all of these are below \<open>n\<close>.
\<close>

lemma toBinaryNumber_loop_no_result:
  assumes "toBinaryNumber_loop x n = Some y"
  shows "\<not> (2 ^ 62 < sint n \<and> (\<exists>k. x = 2 ^ k))"
proof (rule toBinaryNumber_loop.raw_induct
    [of "\<lambda>x n y. \<not> (2 ^ 62 < sint n \<and> (\<exists>k. x = 2 ^ k))" "(x, n)" y, unfolded prod.case])
  show "toBinaryNumber_loop x n = Some y" by (fact assms)
next
  fix loop :: "int64 \<Rightarrow> int64 \<Rightarrow> int64 option" and x n y
  assume IH: "\<And>x n y. loop x n = Some y \<Longrightarrow> \<not> (2 ^ 62 < sint n \<and> (\<exists>k. x = 2 ^ k))"
    and body: "(if x <s n then loop (x * 2) n else Some x) = Some y"
  show "\<not> (2 ^ 62 < sint n \<and> (\<exists>k. x = 2 ^ k))"
  proof
    assume H: "2 ^ 62 < sint n \<and> (\<exists>k. x = 2 ^ k)"
    then obtain k where k: "x = 2 ^ k" by blast
    have "x <s n" using H sint_pow2_le [of k] k by (simp add: word_sless_alt)
    with body have "loop (x * 2) n = Some y" by simp
    from IH [OF this] H k have "\<forall>j. x * 2 \<noteq> 2 ^ j" by blast
    then have "x * 2 \<noteq> 2 ^ Suc k" by blast
    with k show False by simp
  qed
qed

lemma toBinaryNumber_diverges: "2 ^ 62 < sint n \<Longrightarrow> toBinaryNumber n = None"
proof (rule ccontr)
  assume n: "2 ^ 62 < sint n" and "toBinaryNumber n \<noteq> None"
  then obtain y where "toBinaryNumber_loop 1 n = Some y" by (auto simp: toBinaryNumber_def)
  from toBinaryNumber_loop_no_result [OF this] n have "\<forall>k. (1::int64) \<noteq> 2 ^ k" by blast
  then have "(1::int64) \<noteq> 2 ^ 0" by blast
  then show False by simp
qed

lemma toBinaryNumber_loop_returns:
  "k \<le> 62 \<Longrightarrow> sint n \<le> 2 ^ 62 \<Longrightarrow>
   \<exists>j. k \<le> j \<and> j \<le> 62 \<and> toBinaryNumber_loop (2 ^ k) n = Some (2 ^ j) \<and> sint n \<le> 2 ^ j \<and>
       (\<forall>i. k \<le> i \<and> i < j \<longrightarrow> 2 ^ i < sint n)"
proof (induction "62 - k" arbitrary: k)
  case 0
  then have k: "k = 62" by simp
  have "\<not> (2::int64) ^ 62 <s n" using 0(3) by (simp add: word_sless_alt)
  then have "toBinaryNumber_loop (2 ^ 62) n = Some (2 ^ 62)"
    by (subst toBinaryNumber_loop.simps) simp
  with k 0(3) show ?case by (intro exI [of _ 62]) auto
next
  case (Suc d)
  then have k: "k < 62" by simp
  show ?case
  proof (cases "(2::int64) ^ k <s n")
    case False
    then have "toBinaryNumber_loop (2 ^ k) n = Some (2 ^ k)"
      by (subst toBinaryNumber_loop.simps) simp
    moreover have "sint n \<le> 2 ^ k" using False k by (simp add: word_sless_alt sint_pow2_small)
    ultimately show ?thesis using k by (intro exI [of _ k]) auto
  next
    case True
    have d: "d = 62 - Suc k" using Suc(2) by simp
    from Suc(1) [OF d] k Suc(4) obtain j where j: "Suc k \<le> j" "j \<le> 62"
      "toBinaryNumber_loop (2 ^ Suc k) n = Some (2 ^ j)" "sint n \<le> 2 ^ j"
      "\<forall>i. Suc k \<le> i \<and> i < j \<longrightarrow> 2 ^ i < sint n" by auto
    have "toBinaryNumber_loop (2 ^ k) n = toBinaryNumber_loop (2 ^ Suc k) n"
      using True by (subst toBinaryNumber_loop.simps) (simp add: mult.commute)
    moreover have "2 ^ k < sint n" using True k by (simp add: word_sless_alt sint_pow2_small)
    then have "\<forall>i. k \<le> i \<and> i < j \<longrightarrow> 2 ^ i < sint n"
      using j(5) by (metis Suc_leI le_neq_implies_less)
    ultimately show ?thesis using j by (intro exI [of _ j]) auto
  qed
qed

lemma toBinaryNumber_returns:
  assumes "sint n \<le> 2 ^ 62"
  shows "\<exists>j\<le>62. toBinaryNumber n = Some (2 ^ j) \<and> sint n \<le> 2 ^ j \<and> (\<forall>i<j. 2 ^ i < sint n)"
  using toBinaryNumber_loop_returns [of 0 n] assms by (auto simp: toBinaryNumber_def)

lemma toBinaryNumber_16: "toBinaryNumber 16 = Some 16"
  by (simp add: toBinaryNumber_def toBinaryNumber_loop.simps word_sless_alt)

lemma Config_init_returns:
  assumes "sint (BucketNum cfg) \<le> 2 ^ 62"
  shows "\<exists>c j. Config_init cfg = Some c \<and> j \<le> 62 \<and> BucketNum c = 2 ^ j \<and>
           (if sint (BucketNum cfg) \<le> 0 then j = 4
            else sint (BucketNum cfg) \<le> 2 ^ j \<and> (\<forall>i<j. 2 ^ i < sint (BucketNum cfg)))"
proof (cases "sint (BucketNum cfg) \<le> 0")
  case True
  then have "BucketNum cfg \<le>s 0" by (simp add: word_sle_eq)
  then have "\<exists>c. Config_init cfg = Some c \<and> BucketNum c = 2 ^ 4"
    by (simp add: Config_init_def Let_def toBinaryNumber_16)
  with True show ?thesis by auto
next
  case False
  then have n: "\<not> BucketNum cfg \<le>s 0" by (simp add: word_sle_eq)
  from toBinaryNumber_returns [OF assms] obtain j where j: "j \<le> 62"
    "toBinaryNumber (BucketNum cfg) = Some (2 ^ j)" "sint (BucketNum cfg) \<le> 2 ^ j"
    "\<forall>i<j. 2 ^ i < sint (BucketNum cfg)" by blast
  have "\<exists>c. Config_init cfg = Some c \<and> BucketNum c = 2 ^ j"
    using n j(2) by (simp add: Config_init_def Let_def)
  with False j show ?thesis by auto
qed

lemma New_loop_length:
  "sint i \<le> sint (BucketNum cfg) \<Longrightarrow>
   length (New_loop cfg i bs) = length bs + nat (sint (BucketNum cfg) - sint i)"
proof (induction cfg i bs rule: New_loop.induct)
  case (1 cfg i bs)
  show ?case
  proof (cases "i <s BucketNum cfg")
    case True
    then have less: "sint i < sint (BucketNum cfg)" by (simp add: word_sless_alt)
    moreover have "sint (BucketNum cfg) < 2 ^ 63" using sint_lt [of "BucketNum cfg"] by simp
    moreover have "- (2 ^ 63) \<le> sint i" using sint_ge [of i] by simp
    ultimately have "signed_take_bit 63 (sint i + 1) = sint i + 1"
      by (intro signed_take_bit_int_eq_self) simp_all
    then have succ: "sint (i + 1) = sint i + 1" by (simp add: sint_word_ariths)
    with less have "sint (i + 1) \<le> sint (BucketNum cfg)" by simp
    from "1.IH" [OF True this] True succ less show ?thesis
      by (subst New_loop.simps) simp
  next
    case False
    with "1.prems" have "sint i = sint (BucketNum cfg)" by (simp add: word_sless_alt)
    with False show ?thesis by (subst New_loop.simps) simp
  qed
qed

lemma pow2_nonzero: "j \<le> 62 \<Longrightarrow> (2::int64) ^ j \<noteq> 0"
  by simp

lemma unat_pow2: "j \<le> 62 \<Longrightarrow> unat ((2::int64) ^ j) = 2 ^ j"
proof -
  assume j: "j \<le> 62"
  have "0 < (2::int64) ^ j" using pow2_nonzero [OF j] by (simp add: word_gt_0)
  then have "uint ((2::int64) ^ j) = 2 ^ j" by (rule uint_2p)
  then have "nat (uint ((2::int64) ^ j)) = nat (2 ^ j)" by (simp only:)
  then show ?thesis by (simp add: nat_power_eq)
qed

lemma New_wf:
  assumes "New maxAlloc sd cfg = Some (Inr c)"
  shows "wf_emitter c"
proof -
  let ?cfg = "case cfg of None \<Rightarrow> \<lparr>BucketNum = 0, BucketSize = 0\<rparr> | Some c \<Rightarrow> c"
  from assms obtain c' where c': "Config_init ?cfg = Some c'"
    and c: "c = \<lparr>conf = c', seed = sd, buckets = New_loop c' 0 []\<rparr>"
    by (auto simp: New_def split: option.splits if_splits)
  have small: "sint (BucketNum ?cfg) \<le> 2 ^ 62"
  proof (rule ccontr)
    assume "\<not> ?thesis"
    then have big: "2 ^ 62 < sint (BucketNum ?cfg)" by simp
    then have "\<not> BucketNum ?cfg \<le>s 0" by (simp add: word_sle_eq)
    with toBinaryNumber_diverges [OF big] have "Config_init ?cfg = None"
      by (simp add: Config_init_def Let_def)
    with c' show False by simp
  qed
  from Config_init_returns [OF small] c' obtain j where j: "j \<le> 62" "BucketNum c' = 2 ^ j"
    by auto
  then have s: "sint (BucketNum c') = 2 ^ j" by (simp add: sint_pow2_small)
  have nz: "BucketNum c' \<noteq> 0" using j pow2_nonzero [of j] by simp
  have "length (New_loop c' 0 []) = nat (sint (BucketNum c'))"
    using New_loop_length [of 0 c' "[]"] s by simp
  also have "\<dots> = 2 ^ j" by (simp only: s) (simp add: nat_power_eq)
  also have "\<dots> = unat (BucketNum c')" using j by (simp only: unat_pow2)
  finally have "length (buckets c) = unat (BucketNum (conf c))" by (simp add: c)
  with nz show ?thesis by (simp add: wf_emitter_def c)
qed

subsection \<open>Making an emitter\<close>

lemma New_never_returns:
  assumes "2 ^ 62 < sint (BucketNum cfg)"
  shows "New maxAlloc sd (Some cfg) = None"
proof -
  from assms have "\<not> BucketNum cfg \<le>s 0" by (simp add: word_sle_eq)
  with toBinaryNumber_diverges [OF assms] have "Config_init cfg = None"
    by (simp add: Config_init_def Let_def)
  then show ?thesis by (simp add: New_def)
qed

lemma New_rounds_up:
  assumes "sint (BucketNum cfg) \<le> 2 ^ 62"
  shows "\<exists>c' j. Config_init cfg = Some c' \<and> j \<le> 62 \<and> BucketNum c' = 2 ^ j \<and>
           (if sint (BucketNum cfg) \<le> 0 then j = 4
            else sint (BucketNum cfg) \<le> 2 ^ j \<and> (\<forall>i<j. 2 ^ i < sint (BucketNum cfg))) \<and>
           length (New_loop c' 0 []) = 2 ^ j \<and>
           New maxAlloc sd (Some cfg) =
             (if cap_in_range maxAlloc (2 ^ j)
              then Some (Inr \<lparr>conf = c', seed = sd, buckets = New_loop c' 0 []\<rparr>)
              else Some (Inl MakeSliceCap))"
proof -
  from Config_init_returns [OF assms] obtain c' j where c': "Config_init cfg = Some c'"
    and j: "j \<le> 62" "BucketNum c' = 2 ^ j"
    and r: "if sint (BucketNum cfg) \<le> 0 then j = 4
            else sint (BucketNum cfg) \<le> 2 ^ j \<and> (\<forall>i<j. 2 ^ i < sint (BucketNum cfg))"
    by blast
  have s: "sint (BucketNum c') = 2 ^ j" using j by (simp add: sint_pow2_small)
  have "length (New_loop c' 0 []) = nat (sint (BucketNum c'))"
    using New_loop_length [of 0 c' "[]"] s by simp
  also have "\<dots> = 2 ^ j" by (simp only: s) (simp add: nat_power_eq)
  finally have len: "length (New_loop c' 0 []) = 2 ^ j" .
  have new: "New maxAlloc sd (Some cfg) =
      (if cap_in_range maxAlloc (2 ^ j)
       then Some (Inr \<lparr>conf = c', seed = sd, buckets = New_loop c' 0 []\<rparr>)
       else Some (Inl MakeSliceCap))"
    using c' j(2) by (simp add: New_def)
  show ?thesis using c' j r len new by blast
qed

lemma New_16: "\<exists>c. New (2 ^ 48) sd None = Some (Inr c) \<and> length (buckets c) = 16"
proof -
  let ?zero = "\<lparr>BucketNum = 0, BucketSize = 0\<rparr>"
  have "sint (BucketNum ?zero) \<le> 2 ^ 62" by simp
  from New_rounds_up [OF this, of "2 ^ 48" sd] obtain c'
    where c': "length (New_loop c' 0 []) = 2 ^ 4"
      "New (2 ^ 48) sd (Some ?zero) =
         (if cap_in_range (2 ^ 48) (2 ^ 4)
          then Some (Inr \<lparr>conf = c', seed = sd, buckets = New_loop c' 0 []\<rparr>)
          else Some (Inl MakeSliceCap))"
    by auto
  have "cap_in_range (2 ^ 48) (2 ^ 4)" by (simp add: cap_in_range_def)
  with c' have "New (2 ^ 48) sd None =
      Some (Inr \<lparr>conf = c', seed = sd, buckets = New_loop c' 0 []\<rparr>)"
    by (simp add: New_def)
  with c'(1) show ?thesis by simp
qed

lemma New_make_panics:
  "New maxAlloc sd (Some \<lparr>BucketNum = 2 ^ 62, BucketSize = 0\<rparr>) = Some (Inl MakeSliceCap)"
proof -
  let ?cfg = "\<lparr>BucketNum = 2 ^ 62, BucketSize = 0\<rparr>"
  have small: "sint (BucketNum ?cfg) \<le> 2 ^ 62" by simp
  from New_rounds_up [OF small, of maxAlloc sd] obtain j
    where j: "j \<le> 62" "(2::int) ^ 62 \<le> 2 ^ j"
      and new: "New maxAlloc sd (Some ?cfg) =
        (if cap_in_range maxAlloc (2 ^ j) then Some (Inr \<lparr>conf = \<lparr>BucketNum = 2 ^ j, BucketSize = 0\<rparr>,
            seed = sd, buckets = New_loop \<lparr>BucketNum = 2 ^ j, BucketSize = 0\<rparr> 0 []\<rparr>)
         else Some (Inl MakeSliceCap))"
    by (auto simp: Config_init_def Let_def word_sle_eq split: option.splits)
  have "62 \<le> j"
  proof (rule power_le_imp_le_exp)
    show "(1::int) < 2" by simp
    show "(2::int) ^ 62 \<le> 2 ^ j" using j(2) by simp
  qed
  with j(1) have "j = 62" by simp
  moreover have "\<not> cap_in_range maxAlloc (2 ^ 62)" by (simp add: cap_in_range_def)
  ultimately show ?thesis using new by simp
qed

subsection \<open>Publishing\<close>

lemma Publish_registration:
  assumes "wf_emitter c"
  shows "Publish c T msg ks =
           Inr (map (\<lambda>(_, v). Invoke (cb v) (suber v) msg) (go_range (registration c T) ks))"
proof -
  from getBucket_wf [OF assms] obtain i where "getBucket c T = Inr i" by blast
  then show ?thesis by (simp add: Publish_def registration_def publish_registered)
qed

lemma PublishE_registration:
  assumes "wf_emitter c"
  shows "PublishE c T msg chk ks = Inr (publish_e_loop (go_range (registration c T) ks) msg chk)"
proof -
  from getBucket_wf [OF assms] obtain i where "getBucket c T = Inr i" by blast
  then show ?thesis by (simp add: PublishE_def registration_def publish_e_registered)
qed

lemma CountSubscriberByTopic_registration:
  assumes "wf_emitter c"
  shows "CountSubscriberByTopic c T = Inr (fcard (fmdom (registration c T)))"
proof -
  from getBucket_wf [OF assms] obtain i where "getBucket c T = Inr i" by blast
  then show ?thesis
    by (simp add: CountSubscriberByTopic_def registration_def countTopicSubscriber_registered)
qed

lemma Publish_only_registered:
  assumes "wf_emitter c" and "Publish c T msg ks = Inr tr"
  shows "\<forall>e\<in>set tr. \<exists>sid v. fmlookup (registration c T) sid = Some v \<and>
           e = Invoke (cb v) (suber v) msg"
proof -
  from assms have "tr = map (\<lambda>(_, v). Invoke (cb v) (suber v) msg) (go_range (registration c T) ks)"
    by (simp add: Publish_registration)
  then show ?thesis by (fastforce simp: go_range_lookup)
qed

lemma distinct_filter_eq: "distinct xs \<Longrightarrow> x \<in> set xs \<Longrightarrow> length (filter (\<lambda>y. y = x) xs) = 1"
  by (induction xs) (auto simp: filter_empty_conv)

lemma keyed_by_id_Subscribe:
  assumes "keyed_by_id c"
    and "\<forall>T'. registration c' T' =
           (if T' = T then fmupd (id' S) \<lparr>suber = S, cb = f\<rparr> (registration c T)
            else registration c T')"
  shows "keyed_by_id c'"
  using assms by (auto simp: keyed_by_id_def split: if_splits)

lemma keyed_by_id_drop:
  assumes "keyed_by_id c"
    and "\<forall>T'. registration c' T' =
           (if P T' then fmdrop (id' S) (registration c T') else registration c T')"
  shows "keyed_by_id c'"
  unfolding keyed_by_id_def
proof (intro allI impI)
  fix topic k v
  assume "fmlookup (registration c' topic) k = Some v"
  then have "fmlookup (registration c topic) k = Some v"
    by (auto simp: assms(2) split: if_splits)
  with assms(1) show "k = id' (suber v)" by (auto simp: keyed_by_id_def)
qed

lemma Publish_one_invocation:
  assumes wf: "wf_emitter c" and keyed: "keyed_by_id c"
    and reg: "fmlookup (registration c T) (id' S) = Some \<lparr>suber = S, cb = f\<rparr>"
    and ord: "range_order (registration c T) ks"
  shows "\<exists>tr. Publish c T msg ks = Inr tr \<and> length (filter (invoked_for S) tr) = 1 \<and>
           Invoke f S msg \<in> set tr \<and> (\<forall>e\<in>set tr. invoked_for S e \<longrightarrow> e = Invoke f S msg)"
proof -
  let ?reg = "registration c T"
  let ?call = "\<lambda>(_ :: string, v). Invoke (cb v) (suber v) msg"
  let ?kvs = "go_range ?reg ks"
  have run: "Publish c T msg ks = Inr (map ?call ?kvs)" by (rule Publish_registration [OF wf])
  have mem: "(k, v) \<in> set ?kvs \<longleftrightarrow> fmlookup ?reg k = Some v" for k v
    by (rule range_order_entries [OF ord])
  have key: "suber v = S \<longleftrightarrow> k = id' S" if "(k, v) \<in> set ?kvs" for k v
  proof
    assume "suber v = S"
    with that keyed show "k = id' S" by (auto simp: mem keyed_by_id_def)
  next
    assume "k = id' S"
    with that reg show "suber v = S" by (auto simp: mem)
  qed
  have "filter (invoked_for S) (map ?call ?kvs) = map ?call (filter (\<lambda>x. suber (snd x) = S) ?kvs)"
    by (simp add: filter_map comp_def case_prod_beta)
  also have "filter (\<lambda>x. suber (snd x) = S) ?kvs = filter (\<lambda>x. fst x = id' S) ?kvs"
    by (rule filter_cong) (auto simp: key)
  finally have "length (filter (invoked_for S) (map ?call ?kvs)) =
      length (filter (\<lambda>k. k = id' S) (map fst ?kvs))"
    by (simp add: filter_map comp_def)
  also have "\<dots> = length (filter (\<lambda>k. k = id' S) ks)"
    by (simp only: range_order_keys [OF ord])
  also have "\<dots> = 1"
  proof (rule distinct_filter_eq)
    show "distinct ks" using ord by (simp add: range_order_def)
    show "id' S \<in> set ks" using reg by (simp add: range_order_mem [OF ord] fmlookup_dom_iff)
  qed
  finally have one: "length (filter (invoked_for S) (map ?call ?kvs)) = 1" .
  have "(id' S, \<lparr>suber = S, cb = f\<rparr>) \<in> set ?kvs" using reg by (simp add: mem)
  then have inv: "Invoke f S msg \<in> set (map ?call ?kvs)" by force
  have only: "\<forall>e\<in>set (map ?call ?kvs). invoked_for S e \<longrightarrow> e = Invoke f S msg"
  proof
    fix e
    assume "e \<in> set (map ?call ?kvs)"
    then obtain k v where kv: "(k, v) \<in> set ?kvs" "e = Invoke (cb v) (suber v) msg" by auto
    show "invoked_for S e \<longrightarrow> e = Invoke f S msg"
    proof
      assume "invoked_for S e"
      with kv have "suber v = S" by simp
      with key [OF kv(1)] have "k = id' S" by simp
      with kv(1) reg have "v = \<lparr>suber = S, cb = f\<rparr>" by (simp add: mem)
      with kv(2) show "e = Invoke f S msg" by simp
    qed
  qed
  show ?thesis by (rule exI [of _ "map ?call ?kvs"]) (intro conjI run one inv only)
qed

lemma publish_e_loop_CheckSent:
  "CheckSent s \<in> set (publish_e_loop kvs msg chk) \<longleftrightarrow> (\<exists>k v. (k, v) \<in> set kvs \<and> s = suber v)"
  by (induction kvs msg chk rule: publish_e_loop.induct) auto

lemma publish_e_loop_Invoke:
  "Invoke f s m \<in> set (publish_e_loop kvs msg chk) \<longleftrightarrow>
     (\<exists>k v. (k, v) \<in> set kvs \<and> \<not> chk (suber v) \<and> f = cb v \<and> s = suber v \<and> m = msg)"
  by (induction kvs msg chk rule: publish_e_loop.induct) auto

lemma publish_e_loop_OnResult:
  "OnResult s err \<in> set (publish_e_loop kvs msg chk) \<longleftrightarrow>
     (\<exists>k v. (k, v) \<in> set kvs \<and> \<not> chk (suber v) \<and> s = suber v \<and> err = cb v (suber v) msg)"
  by (induction kvs msg chk rule: publish_e_loop.induct) auto

lemma publish_e_loop_checks:
  "length (filter is_CheckSent (publish_e_loop kvs msg chk)) = length kvs"
  by (induction kvs msg chk rule: publish_e_loop.induct) auto

lemma publish_e_loop_invokes:
  "length (filter is_Invoke (publish_e_loop kvs msg chk)) =
     length (filter (\<lambda>(k, v). \<not> chk (suber v)) kvs)"
  by (induction kvs msg chk rule: publish_e_loop.induct) auto

lemma publish_e_loop_results:
  "length (filter is_OnResult (publish_e_loop kvs msg chk)) =
     length (filter (\<lambda>(k, v). \<not> chk (suber v)) kvs)"
  by (induction kvs msg chk rule: publish_e_loop.induct) auto

subsection \<open>Collecting the topics of a subscriber\<close>

lemma written_by_Subscribe_iff:
  "written_by_Subscribe m \<longleftrightarrow>
     (\<forall>key v. fmlookup m key = Some v \<longrightarrow> prefix subTopic key \<longrightarrow>
        v = AStr (drop (length subTopic) key))"
  by (simp add: written_by_Subscribe_def fmpred_iff)

lemma is_AStr_iff: "is_AStr v \<longleftrightarrow> (\<exists>t. v = AStr t)"
  by (cases v) simp_all

lemma string_topics_iff:
  "string_topics m \<longleftrightarrow>
     (\<forall>key v. fmlookup m key = Some v \<longrightarrow> prefix subTopic key \<longrightarrow> (\<exists>t. v = AStr t))"
  by (simp add: string_topics_def fmpred_iff is_AStr_iff)

lemma Range_loop_collect_topic:
  "Range_loop ((k, v) # kvs) collect_topic acc =
     (if prefix subTopic k
      then (case v of
              AStr t \<Rightarrow> Range_loop kvs collect_topic (acc @ [t])
            | _ \<Rightarrow> Inl InterfaceConversion)
      else Range_loop kvs collect_topic acc)"
  by (simp add: collect_topic_def split: any.splits)

lemma Range_loop_collect:
  assumes "\<forall>(k, v)\<in>set kvs. prefix subTopic k \<longrightarrow> (\<exists>t. v = AStr t)"
  shows "\<exists>ts. Range_loop kvs collect_topic acc = Inr (acc @ ts) \<and>
           AStr ` set ts = {v. \<exists>k. (k, v) \<in> set kvs \<and> prefix subTopic k}"
  using assms
proof (induction kvs arbitrary: acc)
  case Nil
  then show ?case by simp
next
  case (Cons kv kvs)
  obtain k v where kv: "kv = (k, v)" by (cases kv)
  from Cons.prems have rest: "\<forall>(k, v)\<in>set kvs. prefix subTopic k \<longrightarrow> (\<exists>t. v = AStr t)"
    by simp
  show ?case
  proof (cases "prefix subTopic k")
    case True
    with Cons.prems kv obtain t where t: "v = AStr t" by auto
    from Cons.IH [OF rest, of "acc @ [t]"] obtain ts
      where ts: "Range_loop kvs collect_topic (acc @ [t]) = Inr ((acc @ [t]) @ ts)"
        "AStr ` set ts = {v. \<exists>k. (k, v) \<in> set kvs \<and> prefix subTopic k}" by blast
    have "Range_loop (kv # kvs) collect_topic acc = Inr (acc @ (t # ts))"
      using True ts(1) by (simp add: kv t Range_loop_collect_topic del: Range_loop.simps)
    moreover have "AStr ` set (t # ts) = {v'. \<exists>k'. (k', v') \<in> set (kv # kvs) \<and> prefix subTopic k'}"
      using True ts(2) by (auto simp: kv t)
    ultimately show ?thesis by blast
  next
    case False
    from Cons.IH [OF rest, of acc] obtain ts
      where ts: "Range_loop kvs collect_topic acc = Inr (acc @ ts)"
        "AStr ` set ts = {v. \<exists>k. (k, v) \<in> set kvs \<and> prefix subTopic k}" by blast
    have "Range_loop (kv # kvs) collect_topic acc = Inr (acc @ ts)"
      using False ts(1) by (simp add: kv Range_loop_collect_topic del: Range_loop.simps)
    moreover have "AStr ` set ts = {v'. \<exists>k'. (k', v') \<in> set (kv # kvs) \<and> prefix subTopic k'}"
      using False ts(2) by (auto simp: kv)
    ultimately show ?thesis by blast
  qed
qed

lemma Range_loop_panics:
  assumes "(k, v) \<in> set kvs" and "prefix subTopic k" and "\<forall>t. v \<noteq> AStr t"
  shows "Range_loop kvs collect_topic acc = Inl InterfaceConversion"
  using assms
proof (induction kvs arbitrary: acc)
  case Nil
  then show ?case by simp
next
  case (Cons kv kvs)
  obtain k' v' where kv: "kv = (k', v')" by (cases kv)
  show ?case
  proof (cases "kv = (k, v)")
    case True
    with Cons.prems show ?thesis
      by (cases v) (simp_all add: Range_loop_collect_topic del: Range_loop.simps)
  next
    case False
    with Cons.prems have "(k, v) \<in> set kvs" by simp
    from Cons.IH [OF this Cons.prems(2,3)]
    have "Range_loop kvs collect_topic acc' = Inl InterfaceConversion" for acc' .
    then show ?thesis
      by (cases v') (simp_all add: kv Range_loop_collect_topic del: Range_loop.simps)
  qed
qed

lemma smap_Range_collect:
  assumes ord: "range_order m ks" and str: "string_topics m"
  shows "\<exists>ts. smap_Range m ks collect_topic [] = Inr ts \<and>
           AStr ` set ts = {v. \<exists>k. fmlookup m k = Some v \<and> prefix subTopic k}"
proof -
  have mem: "(k, v) \<in> set (go_range m ks) \<longleftrightarrow> fmlookup m k = Some v" for k v
    by (rule range_order_entries [OF ord])
  have "\<forall>(k, v)\<in>set (go_range m ks). prefix subTopic k \<longrightarrow> (\<exists>t. v = AStr t)"
    using str by (auto simp: mem string_topics_iff)
  from Range_loop_collect [OF this, of "[]"] show ?thesis
    by (simp add: smap_Range_def mem)
qed

lemma smap_Range_panics:
  assumes ord: "range_order m ks"
    and bad: "fmlookup m k = Some v" "prefix subTopic k" "\<forall>t. v \<noteq> AStr t"
  shows "smap_Range m ks collect_topic [] = Inl InterfaceConversion"
proof -
  have "(k, v) \<in> set (go_range m ks)" using bad(1) by (simp add: range_order_entries [OF ord])
  from Range_loop_panics [OF this bad(2,3)] show ?thesis by (simp add: smap_Range_def)
qed

lemma prefix_subTopic: "prefix subTopic k \<Longrightarrow> k = subTopic @ drop (length subTopic) k"
  by (auto simp: prefix_def)

lemma written_by_Subscribe_strings: "written_by_Subscribe m \<Longrightarrow> string_topics m"
  by (auto simp: written_by_Subscribe_iff string_topics_iff)

lemma written_by_Subscribe_lookup:
  assumes "written_by_Subscribe m" and "fmlookup m (subTopic @ T) = Some v"
  shows "v = AStr T"
proof -
  have "prefix subTopic (subTopic @ T)" by simp
  with assms have "v = AStr (drop (length subTopic) (subTopic @ T))"
    unfolding written_by_Subscribe_iff by blast
  then show ?thesis by simp
qed

lemma written_by_Subscribe_values:
  assumes "written_by_Subscribe m"
  shows "{v. \<exists>k. fmlookup m k = Some v \<and> prefix subTopic k} =
           AStr ` {T. subTopic @ T |\<in>| fmdom m}"
proof (intro set_eqI iffI)
  fix v
  assume "v \<in> {v. \<exists>k. fmlookup m k = Some v \<and> prefix subTopic k}"
  then obtain k where k: "fmlookup m k = Some v" "prefix subTopic k" by blast
  with assms have v: "v = AStr (drop (length subTopic) k)"
    by (simp add: written_by_Subscribe_iff)
  have "subTopic @ drop (length subTopic) k |\<in>| fmdom m"
    using k prefix_subTopic [OF k(2)] by (simp add: fmlookup_dom_iff)
  with v show "v \<in> AStr ` {T. subTopic @ T |\<in>| fmdom m}" by blast
next
  fix v
  assume "v \<in> AStr ` {T. subTopic @ T |\<in>| fmdom m}"
  then obtain T where T: "v = AStr T" "subTopic @ T |\<in>| fmdom m" by blast
  then obtain v' where v': "fmlookup m (subTopic @ T) = Some v'" by (auto simp: fmlookup_dom_iff)
  with assms have "v' = AStr T" by (rule written_by_Subscribe_lookup)
  with T v' show "v \<in> {v. \<exists>k. fmlookup m k = Some v \<and> prefix subTopic k}" by auto
qed

lemma GetTopicsBySubscriber_topics:
  assumes "range_order (stores w (md S)) ks" and "written_by_Subscribe (stores w (md S))"
  shows "\<exists>ts. GetTopicsBySubscriber w S ks = Inr ts \<and>
           set ts = {T. subTopic @ T |\<in>| fmdom (stores w (md S))}"
proof -
  let ?m = "stores w (md S)"
  from smap_Range_collect [OF assms(1) written_by_Subscribe_strings [OF assms(2)]]
  obtain ts where ts: "smap_Range ?m ks collect_topic [] = Inr ts"
    "AStr ` set ts = {v. \<exists>k. fmlookup ?m k = Some v \<and> prefix subTopic k}" by blast
  then have "AStr ` set ts = AStr ` {T. subTopic @ T |\<in>| fmdom ?m}"
    by (simp only: written_by_Subscribe_values [OF assms(2)])
  then have "set ts = {T. subTopic @ T |\<in>| fmdom ?m}"
    by (simp add: inj_image_eq_iff inj_on_def)
  with ts(1) show ?thesis by (simp add: GetTopicsBySubscriber_def)
qed

lemma written_by_Subscribe_Store:
  "written_by_Subscribe m \<Longrightarrow> written_by_Subscribe (fmupd (subTopic @ T) (AStr T) m)"
  by (auto simp: written_by_Subscribe_iff)

lemma written_by_Subscribe_Delete:
  "written_by_Subscribe m \<Longrightarrow> written_by_Subscribe (fmdrop k m)"
  by (auto simp: written_by_Subscribe_iff split: if_splits)

lemma written_by_Subscribe_drop_set:
  "written_by_Subscribe m \<Longrightarrow> written_by_Subscribe (fmdrop_set A m)"
  by (auto simp: written_by_Subscribe_iff split: if_splits)




lemma go_range_no_topics:
  assumes "\<forall>k. prefix subTopic k \<longrightarrow> fmlookup m k = None"
  shows "smap_Range m ks collect_topic [] = Inr []"
proof -
  have "\<forall>(k, v)\<in>set (go_range m ks). prefix subTopic k \<longrightarrow> (\<exists>t. v = AStr t)"
    using assms by (auto simp: go_range_lookup)
  from Range_loop_collect [OF this, of "[]"] obtain ts
    where ts: "Range_loop (go_range m ks) collect_topic [] = Inr ts"
      "AStr ` set ts = {v. \<exists>k. (k, v) \<in> set (go_range m ks) \<and> prefix subTopic k}"
    by auto
  have "{v. \<exists>k. (k, v) \<in> set (go_range m ks) \<and> prefix subTopic k} = {}"
    using assms by (auto simp: go_range_lookup)
  with ts(2) have "ts = []" by simp
  with ts(1) show ?thesis by (simp add: smap_Range_def)
qed

lemma no_topics_left:
  assumes "set ts = {T. subTopic @ T |\<in>| fmdom m}" and "prefix subTopic k"
  shows "fmlookup (fmdrop_set ((\<lambda>t. subTopic @ t) ` set ts) m) k = None"
proof (cases "k |\<in>| fmdom m")
  case True
  with prefix_subTopic [OF assms(2)] have "drop (length subTopic) k \<in> set ts"
    by (simp add: assms(1))
  then have "subTopic @ drop (length subTopic) k \<in> (\<lambda>t. subTopic @ t) ` set ts" by blast
  with prefix_subTopic [OF assms(2)] have "k \<in> (\<lambda>t. subTopic @ t) ` set ts" by simp
  then show ?thesis by simp
next
  case False
  then show ?thesis by (simp add: fmdom_notD)
qed

subsection \<open>Unsubscribing from all topics\<close>

lemma UnSubscribeAll_loop_Cons:
  "UnSubscribeAll_loop w S (t # ts) =
     (case UnSubscribe w S t of Inl p \<Rightarrow> Inl p | Inr w' \<Rightarrow> UnSubscribeAll_loop w' S ts)"
  by (simp add: UnSubscribe_def)

lemma UnSubscribeAll_loop_effect:
  assumes "wf_emitter (emitter w)"
  shows "\<exists>w'. UnSubscribeAll_loop w S ts = Inr w' \<and> wf_emitter (emitter w') \<and>
           stores w' = (stores w)
             (md S := fmdrop_set ((\<lambda>t. subTopic @ t) ` set ts) (stores w (md S))) \<and>
           (\<forall>T'. registration (emitter w') T' =
              (if T' \<in> set ts then fmdrop (id' S) (registration (emitter w) T')
               else registration (emitter w) T'))"
  using assms
proof (induction ts arbitrary: w)
  case Nil
  then show ?case by simp
next
  case (Cons t ts)
  from UnSubscribe_effect [OF Cons.prems, of S t] obtain w1
    where w1: "UnSubscribe w S t = Inr w1" "wf_emitter (emitter w1)"
      "stores w1 = (stores w)(md S := fmdrop (subTopic @ t) (stores w (md S)))"
      "\<And>T'. registration (emitter w1) T' =
         (if T' = t then fmdrop (id' S) (registration (emitter w) t)
          else registration (emitter w) T')"
    by blast
  from Cons.IH [OF w1(2)] obtain w'
    where w': "UnSubscribeAll_loop w1 S ts = Inr w'" "wf_emitter (emitter w')"
      "stores w' = (stores w1)
         (md S := fmdrop_set ((\<lambda>t. subTopic @ t) ` set ts) (stores w1 (md S)))"
      "\<And>T'. registration (emitter w') T' =
         (if T' \<in> set ts then fmdrop (id' S) (registration (emitter w1) T')
          else registration (emitter w1) T')"
    by blast
  have run: "UnSubscribeAll_loop w S (t # ts) = Inr w'"
    by (simp only: UnSubscribeAll_loop_Cons w1(1) w'(1) sum.case)
  have st: "stores w' = (stores w)
      (md S := fmdrop_set ((\<lambda>t. subTopic @ t) ` set (t # ts)) (stores w (md S)))"
    by (simp add: w'(3) w1(3))
  have reg: "registration (emitter w') T' =
      (if T' \<in> set (t # ts) then fmdrop (id' S) (registration (emitter w) T')
       else registration (emitter w) T')" for T'
    by (simp add: w'(4) w1(4))
  show ?case using run w'(2) st reg by blast
qed

lemma UnSubscribeAll_runs:
  assumes wf: "wf_emitter (emitter w)"
    and str: "string_topics (stores w (md S))"
    and ord: "range_order (stores w (md S)) ks"
  shows "\<exists>w' ts. UnSubscribeAll w S ks = Inr w' \<and> wf_emitter (emitter w') \<and>
           GetTopicsBySubscriber w S ks = Inr ts \<and>
           UnSubscribeAll_loop w S ts = Inr w' \<and>
           stores w' = (stores w)
             (md S := fmdrop_set ((\<lambda>t. subTopic @ t) ` set ts) (stores w (md S))) \<and>
           (\<forall>T'. registration (emitter w') T' =
              (if T' \<in> set ts then fmdrop (id' S) (registration (emitter w) T')
               else registration (emitter w) T'))"
proof -
  from smap_Range_collect [OF ord str] obtain ts
    where ts: "smap_Range (stores w (md S)) ks collect_topic [] = Inr ts" by blast
  from UnSubscribeAll_loop_effect [OF wf, of S ts] obtain w'
    where w': "UnSubscribeAll_loop w S ts = Inr w'" "wf_emitter (emitter w')"
      "stores w' = (stores w)
         (md S := fmdrop_set ((\<lambda>t. subTopic @ t) ` set ts) (stores w (md S)))"
      "\<forall>T'. registration (emitter w') T' =
         (if T' \<in> set ts then fmdrop (id' S) (registration (emitter w) T')
          else registration (emitter w) T')"
    by blast
  have "UnSubscribeAll w S ks = Inr w'"
    using ts w'(1) by (simp add: UnSubscribeAll_def)
  moreover have "GetTopicsBySubscriber w S ks = Inr ts"
    using ts by (simp add: GetTopicsBySubscriber_def)
  ultimately show ?thesis using w' by blast
qed

lemma UnSubscribeAll_effect:
  assumes wf: "wf_emitter (emitter w)"
    and wr: "written_by_Subscribe (stores w (md S))"
    and ord: "range_order (stores w (md S)) ks"
  shows "\<exists>w' ts. UnSubscribeAll w S ks = Inr w' \<and> wf_emitter (emitter w') \<and>
           set ts = {T. subTopic @ T |\<in>| fmdom (stores w (md S))} \<and>
           GetTopicsBySubscriber w S ks = Inr ts \<and>
           UnSubscribeAll_loop w S ts = Inr w' \<and>
           stores w' = (stores w)
             (md S := fmdrop_set ((\<lambda>t. subTopic @ t) ` set ts) (stores w (md S))) \<and>
           (\<forall>T'. registration (emitter w') T' =
              (if T' \<in> set ts then fmdrop (id' S) (registration (emitter w) T')
               else registration (emitter w) T'))"
proof -
  from UnSubscribeAll_runs [OF wf written_by_Subscribe_strings [OF wr] ord] obtain w' ts
    where w': "UnSubscribeAll w S ks = Inr w'" "wf_emitter (emitter w')"
      "GetTopicsBySubscriber w S ks = Inr ts" "UnSubscribeAll_loop w S ts = Inr w'"
      "stores w' = (stores w)
         (md S := fmdrop_set ((\<lambda>t. subTopic @ t) ` set ts) (stores w (md S)))"
      "\<forall>T'. registration (emitter w') T' =
         (if T' \<in> set ts then fmdrop (id' S) (registration (emitter w) T')
          else registration (emitter w) T')"
    by blast
  from GetTopicsBySubscriber_topics [OF ord wr] w'(3)
  have "set ts = {T. subTopic @ T |\<in>| fmdom (stores w (md S))}" by auto
  with w' show ?thesis by blast
qed

subsection \<open>What the operations keep\<close>

lemma good_world_perform:
  assumes "good_world w" and "visit_ok w x"
  shows "\<exists>w'. perform w x = Inr w' \<and> good_world w'"
proof -
  from assms(1) have wf: "wf_emitter (emitter w)" and keyed: "keyed_by_id (emitter w)"
    and wr: "\<And>a. written_by_Subscribe (stores w a)"
    by (simp_all add: good_world_def)
  show ?thesis
  proof (cases x)
    case (OpSubscribe S T f)
    from Subscribe_effect [OF wf, of S T f] obtain w'
      where w': "Subscribe w S T f = Inr w'" "wf_emitter (emitter w')"
        "stores w' = (stores w)(md S := fmupd (subTopic @ T) (AStr T) (stores w (md S)))"
        "\<forall>T'. registration (emitter w') T' =
           (if T' = T then fmupd (id' S) \<lparr>suber = S, cb = f\<rparr> (registration (emitter w) T)
            else registration (emitter w) T')"
      by blast
    have "keyed_by_id (emitter w')" by (rule keyed_by_id_Subscribe [OF keyed w'(4)])
    moreover have "written_by_Subscribe (stores w' a)" for a
      by (simp add: w'(3) wr written_by_Subscribe_Store)
    ultimately show ?thesis using w'(1,2) by (simp add: OpSubscribe good_world_def)
  next
    case (OpUnSubscribe S T)
    from UnSubscribe_effect [OF wf, of S T] obtain w'
      where w': "UnSubscribe w S T = Inr w'" "wf_emitter (emitter w')"
        "stores w' = (stores w)(md S := fmdrop (subTopic @ T) (stores w (md S)))"
        "\<forall>T'. registration (emitter w') T' =
           (if T' = T then fmdrop (id' S) (registration (emitter w) T)
            else registration (emitter w) T')"
      by blast
    have "keyed_by_id (emitter w')"
      by (rule keyed_by_id_drop [OF keyed, of _ "\<lambda>T'. T' = T" S]) (simp add: w'(4))
    moreover have "written_by_Subscribe (stores w' a)" for a
      by (simp add: w'(3) wr written_by_Subscribe_Delete)
    ultimately show ?thesis using w'(1,2) by (simp add: OpUnSubscribe good_world_def)
  next
    case (OpUnSubscribeAll S ks)
    with assms(2) have "range_order (stores w (md S)) ks" by simp
    from UnSubscribeAll_effect [OF wf wr this] obtain w' ts
      where w': "UnSubscribeAll w S ks = Inr w'" "wf_emitter (emitter w')"
        "stores w' = (stores w)
           (md S := fmdrop_set ((\<lambda>t. subTopic @ t) ` set ts) (stores w (md S)))"
        "\<forall>T'. registration (emitter w') T' =
           (if T' \<in> set ts then fmdrop (id' S) (registration (emitter w) T')
            else registration (emitter w) T')"
      by blast
    have "keyed_by_id (emitter w')"
      by (rule keyed_by_id_drop [OF keyed, of _ "\<lambda>T'. T' \<in> set ts" S]) (simp add: w'(4))
    moreover have "written_by_Subscribe (stores w' a)" for a
      by (simp add: w'(3) wr written_by_Subscribe_drop_set)
    ultimately show ?thesis using w'(1,2) by (simp add: OpUnSubscribeAll good_world_def)
  next
    case (OpPublish T msg ks)
    then show ?thesis using assms(1) by (simp add: Publish_registration [OF wf])
  next
    case (OpPublishE T msg chk ks)
    then show ?thesis using assms(1) by (simp add: PublishE_registration [OF wf])
  qed
qed

lemma good_world_perform_all:
  assumes "good_world w" and "visits_ok w xs"
  shows "\<exists>w'. perform_all w xs = Inr w' \<and> good_world w'"
  using assms
proof (induction xs arbitrary: w)
  case Nil
  then show ?case by simp
next
  case (Cons x xs)
  from Cons.prems have "visit_ok w x" by simp
  from good_world_perform [OF Cons.prems(1) this] obtain w1
    where w1: "perform w x = Inr w1" "good_world w1" by blast
  with Cons.prems have "visits_ok w1 xs" by simp
  from Cons.IH [OF w1(2) this] w1(1) show ?case by simp
qed

lemma registration_empty_buckets:
  assumes "wf_emitter c" and "\<forall>b\<in>set (buckets c). Topics b = fmempty"
  shows "registration c T = fmempty"
proof -
  from getBucket_wf [OF assms(1), of T] obtain i
    where i: "i < length (buckets c)" "getBucket c T = Inr i" by blast
  then have "Topics (buckets c ! i) = fmempty" using assms(2) by simp
  with i show ?thesis by (simp add: registration_def registered_def)
qed

lemma perform_all_append:
  "perform_all w (xs @ ys) =
     (case perform_all w xs of Inl p \<Rightarrow> Inl p | Inr w' \<Rightarrow> perform_all w' ys)"
  by (induction xs arbitrary: w) (auto split: sum.splits)



subsection \<open>The example state\<close>

lemmas ex_defs = ex_seed_def ex_A_def ex_B_def ex_C_def ex_new_def ex_emitter_def ex_world_def

lemma ex_new_New:
  "New (2 ^ 48) ex_seed (Some \<lparr>BucketNum = 2, BucketSize = 0\<rparr>) = Some (Inr (emitter ex_new))"
  by (simp add: New_def Config_init_def Let_def toBinaryNumber_def toBinaryNumber_loop.simps
      New_loop.simps word_sless_alt word_sle_eq ex_new_def cap_in_range_def)

lemma ex_world_reached:
  "perform_all ex_new
     [OpSubscribe ex_A ''test'' ex_fail, OpSubscribe ex_A ''greet'' ex_ok,
      OpSubscribe ex_B ''test'' ex_ok] = Inr ex_world"
  by (simp add: ex_defs Subscribe_def on_bucket_def on_metadata_def getBucket_def subscribe_def
      smap_Store_def subTopic_def Let_def)

lemma ex_wf: "wf_emitter ex_emitter"
  by (simp add: wf_emitter_def ex_emitter_def)

lemma ex_registration_test:
  "registration ex_emitter ''test'' =
     fmupd ''B'' \<lparr>suber = ex_B, cb = ex_ok\<rparr> (fmupd ''A'' \<lparr>suber = ex_A, cb = ex_fail\<rparr> fmempty)"
  by (simp add: registration_def registered_def getBucket_def ex_emitter_def ex_seed_def)

lemma ex_registration_greet:
  "registration ex_emitter ''greet'' = fmupd ''A'' \<lparr>suber = ex_A, cb = ex_ok\<rparr> fmempty"
  by (simp add: registration_def registered_def getBucket_def ex_emitter_def ex_seed_def)

lemma ex_registration_empty: "registration ex_emitter '''' = fmempty"
  by (simp add: registration_def registered_def getBucket_def ex_emitter_def ex_seed_def)

lemma ex_registration_chat: "registration ex_emitter ''chat'' = fmempty"
  by (simp add: registration_def registered_def getBucket_def ex_emitter_def ex_seed_def)

lemma ex_range_test: "range_order (registration ex_emitter ''test'') [''A'', ''B'']"
  by (auto simp add: range_order_def ex_registration_test)

lemma ex_new_good: "good_world ex_new"
proof -
  have wf: "wf_emitter (emitter ex_new)" by (simp add: ex_new_def wf_emitter_def)
  have "registration (emitter ex_new) T = fmempty" for T
    by (rule registration_empty_buckets [OF wf]) (simp add: ex_new_def)
  then have "keyed_by_id (emitter ex_new)" by (simp add: keyed_by_id_def)
  moreover have "written_by_Subscribe (stores ex_new a)" for a
    by (simp add: ex_new_def written_by_Subscribe_iff)
  ultimately show ?thesis using wf by (simp add: good_world_def)
qed

lemma ex_world_good: "good_world ex_world"
proof -
  have "visits_ok ex_new
     [OpSubscribe ex_A ''test'' ex_fail, OpSubscribe ex_A ''greet'' ex_ok,
      OpSubscribe ex_B ''test'' ex_ok]"
    using good_world_perform [OF ex_new_good]
    by (auto split: sum.splits)
  from good_world_perform_all [OF ex_new_good this] show ?thesis
    by (simp only: ex_world_reached) simp
qed

lemma ex_world_wf: "wf_emitter (emitter ex_world)"
  by (simp add: ex_world_def ex_wf)

lemma ex_world_keyed: "keyed_by_id (emitter ex_world)"
  using ex_world_good by (simp add: good_world_def)

lemma ex_emitter_world: "emitter ex_world = ex_emitter"
  by (simp add: ex_world_def)

lemma ex_A_store:
  "stores ex_world (md ex_A) =
     fmupd ''sub-topic-greet'' (AStr ''greet'') (fmupd ''sub-topic-test'' (AStr ''test'') fmempty)"
  by (simp add: ex_world_def ex_A_def)

lemma ex_A_written: "written_by_Subscribe (stores ex_world (md ex_A))"
  by (auto simp: ex_A_store written_by_Subscribe_iff subTopic_def split: if_splits)

lemma ex_A_order:
  "range_order (stores ex_world (md ex_A)) [''sub-topic-greet'', ''sub-topic-test'']"
  by (auto simp: ex_A_store range_order_def)

lemma ex_B_store: "stores ex_world (md ex_B) = fmupd ''sub-topic-test'' (AStr ''test'') fmempty"
  by (simp add: ex_world_def ex_B_def)

lemma ex_B_written: "written_by_Subscribe (stores ex_world (md ex_B))"
  using ex_world_good by (simp add: good_world_def)

lemma ex_C_store: "stores ex_world (md ex_C) = fmempty"
  by (simp add: ex_world_def ex_C_def)

lemma ex_caller_stored_store:
  "stores ex_caller_stored (md ex_B) =
     fmupd ''sub-topic-x'' (AInt 7) (fmupd ''sub-topic-test'' (AStr ''test'') fmempty)"
  by (simp add: ex_caller_stored_def ex_world_def ex_B_def)



section \<open>Publish calls the registered callbacks\<close>

text \<open>
  Claim C1. For every topic \<open>T\<close>, message \<open>msg\<close> and order \<open>ks\<close> in which the runtime visits
  the registration map of \<open>T\<close>, \<open>Publish\<close> returns normally and calls exactly the callbacks
  registered to \<open>T\<close> at the time of the call: the calls correspond one to one to the
  registered subscriber ids (\<open>ks\<close> lists every id once), the call for an id is the callback
  stored under that id, applied to the subscriber stored under it and to \<open>msg\<close>, and every
  call is one of these, so no subscriber that is not registered to \<open>T\<close> is called.
\<close>

theorem Publish_invokes_exactly_registered:
  assumes "wf_emitter c" and "range_order (registration c T) ks"
  shows "\<exists>tr. Publish c T msg ks = Inr tr \<and>
           length tr = fcard (fmdom (registration c T)) \<and>
           list_all2 (\<lambda>sid e. \<exists>v. fmlookup (registration c T) sid = Some v \<and>
                                  e = Invoke (cb v) (suber v) msg) ks tr \<and>
           (\<forall>e\<in>set tr. \<exists>sid v. fmlookup (registration c T) sid = Some v \<and>
                                  e = Invoke (cb v) (suber v) msg)"
proof -
  let ?reg = "registration c T"
  let ?call = "\<lambda>(_ :: string, v). Invoke (cb v) (suber v) msg"
  let ?tr = "map ?call (go_range ?reg ks)"
  have run: "Publish c T msg ks = Inr ?tr" by (rule Publish_registration [OF assms(1)])
  have "length ?tr = length (map fst (go_range ?reg ks))" by simp
  also have "\<dots> = length ks" by (simp only: range_order_keys [OF assms(2)])
  also have "\<dots> = fcard (fmdom ?reg)" by (rule range_order_length [OF assms(2)])
  finally have len: "length ?tr = fcard (fmdom ?reg)" .
  have "list_all2 (\<lambda>k e. fst e = k \<and> fmlookup ?reg k = Some (snd e)) ks (go_range ?reg ks)"
    by (rule range_order_all2 [OF assms(2)])
  then have "list_all2 (\<lambda>sid e. \<exists>v. fmlookup ?reg sid = Some v \<and> ?call e = Invoke (cb v) (suber v) msg)
      ks (go_range ?reg ks)"
    by (rule list_all2_mono) (auto simp: case_prod_beta)
  then have all2: "list_all2 (\<lambda>sid e. \<exists>v. fmlookup ?reg sid = Some v \<and> e = Invoke (cb v) (suber v) msg)
      ks ?tr"
    by (simp add: list_all2_map2)
  have only: "\<forall>e\<in>set ?tr. \<exists>sid v. fmlookup ?reg sid = Some v \<and> e = Invoke (cb v) (suber v) msg"
    by (rule Publish_only_registered [OF assms(1) run])
  show ?thesis using run len all2 only by blast
qed

text \<open>
  In the example state, publishing to \<open>test\<close> calls the callbacks of \<open>A\<close> and \<open>B\<close> for
  \<open>test\<close>, once each, and not the callback of \<open>A\<close> for \<open>greet\<close>.
\<close>

theorem Publish_invokes_exactly_registered_witness:
  "wf_emitter ex_emitter \<and> range_order (registration ex_emitter ''test'') [''A'', ''B''] \<and>
   Publish ex_emitter ''test'' (AStr ''hello!'') [''A'', ''B''] =
     Inr [Invoke ex_fail ex_A (AStr ''hello!''), Invoke ex_ok ex_B (AStr ''hello!'')]"
proof -
  from Publish_invokes_exactly_registered [OF ex_wf ex_range_test, of "AStr ''hello!''"]
  obtain tr where tr: "Publish ex_emitter ''test'' (AStr ''hello!'') [''A'', ''B''] = Inr tr"
    and all2: "list_all2 (\<lambda>sid e. \<exists>v. fmlookup (registration ex_emitter ''test'') sid = Some v \<and>
                 e = Invoke (cb v) (suber v) (AStr ''hello!'')) [''A'', ''B''] tr"
    by blast
  from all2 have "tr = [Invoke ex_fail ex_A (AStr ''hello!''), Invoke ex_ok ex_B (AStr ''hello!'')]"
    by (auto simp: list_all2_Cons1 ex_registration_test)
  with tr show ?thesis by (simp add: ex_wf ex_range_test)
qed

section \<open>The reverse index\<close>




section \<open>UnSubscribeAll\<close>

text \<open>
  Claim C3. In a state where the emitter is well formed and the reserved keys of the store
  of \<open>S\<close> hold what \<open>Subscribe\<close> wrote, \<open>UnSubscribeAll\<close> for \<open>S\<close> returns normally, whatever the
  order \<open>ks\<close> in which \<open>Range\<close> visits the store. Afterwards \<open>GetTopicsBySubscriber\<close> returns
  the empty list and a second \<open>UnSubscribeAll\<close> returns the same state, for every order;
  and when \<open>S\<close> has no subscription, the first call already returns the state unchanged.
\<close>

theorem UnSubscribeAll_empties_and_is_idempotent:
  assumes "wf_emitter (emitter w)"
    and "written_by_Subscribe (stores w (md S))"
    and "range_order (stores w (md S)) ks"
  shows "\<exists>w'. UnSubscribeAll w S ks = Inr w' \<and>
           (\<forall>ks'. GetTopicsBySubscriber w' S ks' = Inr [] \<and> UnSubscribeAll w' S ks' = Inr w') \<and>
           ((\<forall>T. subTopic @ T |\<notin>| fmdom (stores w (md S))) \<longrightarrow> w' = w)"
proof -
  let ?m = "stores w (md S)"
  from UnSubscribeAll_effect [OF assms] obtain w' ts
    where run: "UnSubscribeAll w S ks = Inr w'"
      and ts: "set ts = {T. subTopic @ T |\<in>| fmdom ?m}"
      and loop: "UnSubscribeAll_loop w S ts = Inr w'"
      and st: "stores w' = (stores w)(md S := fmdrop_set ((\<lambda>t. subTopic @ t) ` set ts) ?m)"
    by blast
  have "\<forall>k. prefix subTopic k \<longrightarrow> fmlookup (stores w' (md S)) k = None"
    using no_topics_left [OF ts] by (simp add: st)
  then have none: "smap_Range (stores w' (md S)) ks' collect_topic [] = Inr []" for ks'
    by (rule go_range_no_topics)
  have again: "GetTopicsBySubscriber w' S ks' = Inr [] \<and> UnSubscribeAll w' S ks' = Inr w'" for ks'
    by (simp add: GetTopicsBySubscriber_def UnSubscribeAll_def none)
  have noop: "w' = w" if "\<forall>T. subTopic @ T |\<notin>| fmdom ?m"
  proof -
    from that ts have "ts = []" by simp
    with loop show ?thesis by simp
  qed
  show ?thesis using run again noop by blast
qed

text \<open>
  In the example state, \<open>A\<close> has two subscriptions and \<open>ex_C\<close> has none.
\<close>

theorem UnSubscribeAll_empties_and_is_idempotent_witness:
  "wf_emitter (emitter ex_world) \<and>
   written_by_Subscribe (stores ex_world (md ex_A)) \<and>
   range_order (stores ex_world (md ex_A)) [''sub-topic-greet'', ''sub-topic-test''] \<and>
   (\<exists>w'. UnSubscribeAll ex_world ex_A [''sub-topic-greet'', ''sub-topic-test''] = Inr w' \<and>
      GetTopicsBySubscriber w' ex_A [] = Inr [] \<and> UnSubscribeAll w' ex_A [] = Inr w') \<and>
   (\<forall>T. subTopic @ T |\<notin>| fmdom (stores ex_world (md ex_C))) \<and>
   UnSubscribeAll ex_world ex_C [] = Inr ex_world"
proof -
  have C: "written_by_Subscribe (stores ex_world (md ex_C))"
    "range_order (stores ex_world (md ex_C)) []"
    "\<forall>T. subTopic @ T |\<notin>| fmdom (stores ex_world (md ex_C))"
    by (simp_all add: ex_C_store written_by_Subscribe_iff range_order_def)
  from UnSubscribeAll_empties_and_is_idempotent [OF ex_world_wf ex_A_written ex_A_order]
  have A: "\<exists>w'. UnSubscribeAll ex_world ex_A [''sub-topic-greet'', ''sub-topic-test''] = Inr w' \<and>
      GetTopicsBySubscriber w' ex_A [] = Inr [] \<and> UnSubscribeAll w' ex_A [] = Inr w'"
    by blast
  from UnSubscribeAll_empties_and_is_idempotent [OF ex_world_wf C(1,2)] C(3)
  have "UnSubscribeAll ex_world ex_C [] = Inr ex_world" by auto
  with A C(3) show ?thesis by (simp add: ex_world_wf ex_A_written ex_A_order)
qed

section \<open>PublishE\<close>

text \<open>
  Claim C4. For every topic \<open>T\<close> and order \<open>ks\<close> of the visit, \<open>PublishE\<close> returns normally
  with a list of calls \<open>tr\<close> such that: \<open>checkSent\<close> is called for every registered subscriber;
  when it returns false for a subscriber, the callback of that subscriber is called with
  the subscriber and \<open>msg\<close>, and \<open>f\<close> is called with the subscriber and the error that the
  callback returned, whatever that error is and whatever the other callbacks returned;
  every call of a callback and every call of \<open>f\<close> in \<open>tr\<close> is for a registered subscriber
  for which \<open>checkSent\<close> returned false; there are as many calls of \<open>checkSent\<close> as registered
  ids, and as many calls of \<open>f\<close> as calls of callbacks.
\<close>

theorem PublishE_checks_invokes_reports:
  assumes "wf_emitter c" and "range_order (registration c T) ks"
  shows "\<exists>tr. PublishE c T msg checkSent ks = Inr tr \<and>
           (\<forall>sid v. fmlookup (registration c T) sid = Some v \<longrightarrow>
              CheckSent (suber v) \<in> set tr \<and>
              (\<not> checkSent (suber v) \<longrightarrow>
                 Invoke (cb v) (suber v) msg \<in> set tr \<and>
                 OnResult (suber v) (cb v (suber v) msg) \<in> set tr)) \<and>
           (\<forall>f s m. Invoke f s m \<in> set tr \<longrightarrow>
              \<not> checkSent s \<and> m = msg \<and>
              (\<exists>sid v. fmlookup (registration c T) sid = Some v \<and> s = suber v \<and> f = cb v)) \<and>
           (\<forall>s err. OnResult s err \<in> set tr \<longrightarrow>
              \<not> checkSent s \<and>
              (\<exists>sid v. fmlookup (registration c T) sid = Some v \<and> s = suber v \<and>
                 err = cb v s msg)) \<and>
           length (filter is_CheckSent tr) = fcard (fmdom (registration c T)) \<and>
           length (filter is_Invoke tr) = length (filter is_OnResult tr)"
proof -
  let ?reg = "registration c T"
  let ?kvs = "go_range ?reg ks"
  let ?tr = "publish_e_loop ?kvs msg checkSent"
  have run: "PublishE c T msg checkSent ks = Inr ?tr"
    by (rule PublishE_registration [OF assms(1)])
  have mem: "(k, v) \<in> set ?kvs \<longleftrightarrow> fmlookup ?reg k = Some v" for k v
    by (rule range_order_entries [OF assms(2)])
  have a: "\<forall>sid v. fmlookup ?reg sid = Some v \<longrightarrow>
      CheckSent (suber v) \<in> set ?tr \<and>
      (\<not> checkSent (suber v) \<longrightarrow>
         Invoke (cb v) (suber v) msg \<in> set ?tr \<and>
         OnResult (suber v) (cb v (suber v) msg) \<in> set ?tr)"
    by (auto simp: publish_e_loop_CheckSent publish_e_loop_Invoke publish_e_loop_OnResult mem)
  have b: "\<forall>f s m. Invoke f s m \<in> set ?tr \<longrightarrow>
      \<not> checkSent s \<and> m = msg \<and>
      (\<exists>sid v. fmlookup ?reg sid = Some v \<and> s = suber v \<and> f = cb v)"
    by (auto simp: publish_e_loop_Invoke mem)
  have d: "\<forall>s err. OnResult s err \<in> set ?tr \<longrightarrow>
      \<not> checkSent s \<and>
      (\<exists>sid v. fmlookup ?reg sid = Some v \<and> s = suber v \<and> err = cb v s msg)"
    by (auto simp: publish_e_loop_OnResult mem)
  have "length (filter is_CheckSent ?tr) = length (map fst ?kvs)"
    by (simp add: publish_e_loop_checks)
  also have "\<dots> = length ks" by (simp only: range_order_keys [OF assms(2)])
  also have "\<dots> = fcard (fmdom ?reg)" by (rule range_order_length [OF assms(2)])
  finally have e: "length (filter is_CheckSent ?tr) = fcard (fmdom ?reg)" .
  have f: "length (filter is_Invoke ?tr) = length (filter is_OnResult ?tr)"
    by (simp add: publish_e_loop_invokes publish_e_loop_results)
  show ?thesis
    by (rule exI [of _ ?tr]) (intro conjI run a b d e f)
qed

text \<open>
  In the example state the callback of \<open>A\<close> for \<open>test\<close> returns an error: \<open>f\<close> receives it, and
  \<open>B\<close> is still served. When \<open>checkSent\<close> is true for \<open>B\<close>, \<open>B\<close> is checked and neither its
  callback nor \<open>f\<close> is called for it.
\<close>

theorem PublishE_checks_invokes_reports_witness:
  "wf_emitter ex_emitter \<and> range_order (registration ex_emitter ''test'') [''A'', ''B''] \<and>
   (\<exists>tr. PublishE ex_emitter ''test'' ANil (\<lambda>_. False) [''A'', ''B''] = Inr tr \<and>
      OnResult ex_A (Some ''failed'') \<in> set tr \<and>
      Invoke ex_ok ex_B ANil \<in> set tr \<and> OnResult ex_B None \<in> set tr) \<and>
   (\<exists>tr. PublishE ex_emitter ''test'' ANil (\<lambda>s. s = ex_B) [''A'', ''B''] = Inr tr \<and>
      CheckSent ex_B \<in> set tr \<and>
      Invoke ex_ok ex_B ANil \<notin> set tr \<and> OnResult ex_B None \<notin> set tr)"
proof -
  have A: "fmlookup (registration ex_emitter ''test'') ''A'' = Some \<lparr>suber = ex_A, cb = ex_fail\<rparr>"
    and B: "fmlookup (registration ex_emitter ''test'') ''B'' = Some \<lparr>suber = ex_B, cb = ex_ok\<rparr>"
    by (simp_all add: ex_registration_test)
  from PublishE_checks_invokes_reports [OF ex_wf ex_range_test, of ANil "\<lambda>_. False"]
  obtain tr where tr: "PublishE ex_emitter ''test'' ANil (\<lambda>_. False) [''A'', ''B''] = Inr tr"
    and reg: "\<forall>sid v. fmlookup (registration ex_emitter ''test'') sid = Some v \<longrightarrow>
        CheckSent (suber v) \<in> set tr \<and>
        (\<not> False \<longrightarrow> Invoke (cb v) (suber v) ANil \<in> set tr \<and>
           OnResult (suber v) (cb v (suber v) ANil) \<in> set tr)"
    by blast
  from reg A have "OnResult ex_A (ex_fail ex_A ANil) \<in> set tr" by fastforce
  moreover from reg B have "Invoke ex_ok ex_B ANil \<in> set tr \<and> OnResult ex_B (ex_ok ex_B ANil) \<in> set tr"
    by fastforce
  ultimately have first: "\<exists>tr. PublishE ex_emitter ''test'' ANil (\<lambda>_. False) [''A'', ''B''] = Inr tr \<and>
      OnResult ex_A (Some ''failed'') \<in> set tr \<and>
      Invoke ex_ok ex_B ANil \<in> set tr \<and> OnResult ex_B None \<in> set tr"
    using tr by (auto simp: ex_fail_def ex_ok_def)
  from PublishE_checks_invokes_reports [OF ex_wf ex_range_test, of ANil "\<lambda>s. s = ex_B"]
  obtain tr' where tr': "PublishE ex_emitter ''test'' ANil (\<lambda>s. s = ex_B) [''A'', ''B''] = Inr tr'"
    and reg': "\<forall>sid v. fmlookup (registration ex_emitter ''test'') sid = Some v \<longrightarrow>
        CheckSent (suber v) \<in> set tr'"
    and inv': "\<forall>f s m. Invoke f s m \<in> set tr' \<longrightarrow> \<not> s = ex_B"
    and res': "\<forall>s err. OnResult s err \<in> set tr' \<longrightarrow> \<not> s = ex_B"
    by blast
  from reg' B have "CheckSent ex_B \<in> set tr'" by fastforce
  with tr' inv' res' have second:
    "\<exists>tr. PublishE ex_emitter ''test'' ANil (\<lambda>s. s = ex_B) [''A'', ''B''] = Inr tr \<and>
      CheckSent ex_B \<in> set tr \<and>
      Invoke ex_ok ex_B ANil \<notin> set tr \<and> OnResult ex_B None \<notin> set tr"
    by blast
  show ?thesis using first second by (simp add: ex_wf ex_range_test)
qed

section \<open>Subscribing twice\<close>

text \<open>
  Claim C5. In a well-formed state whose registrations are stored under the ids of their
  subscribers, subscribing \<open>(S, T, cb1)\<close> and then \<open>(S, T, cb2)\<close> returns normally; afterwards
  the registration map of \<open>T\<close> holds \<open>S\<close> with the callback \<open>cb2\<close> under the id of \<open>S\<close>, and every
  entry for \<open>S\<close> is this one; \<open>CountSubscriberByTopic\<close> is the same as after the first
  subscription; and a later \<open>Publish\<close> to \<open>T\<close> makes exactly one call for \<open>S\<close>, the call of
  \<open>cb2\<close>.
\<close>

theorem resubscribe_replaces_callback:
  assumes "wf_emitter (emitter w)" and "keyed_by_id (emitter w)"
  shows "\<exists>w1 w2. Subscribe w S T cb1 = Inr w1 \<and> Subscribe w1 S T cb2 = Inr w2 \<and>
           fmlookup (registration (emitter w2) T) (id' S) = Some \<lparr>suber = S, cb = cb2\<rparr> \<and>
           (\<forall>k v. fmlookup (registration (emitter w2) T) k = Some v \<and> suber v = S \<longrightarrow>
              k = id' S \<and> cb v = cb2) \<and>
           (\<exists>n. CountSubscriberByTopic (emitter w1) T = Inr n \<and>
                CountSubscriberByTopic (emitter w2) T = Inr n) \<and>
           (\<forall>msg ks. range_order (registration (emitter w2) T) ks \<longrightarrow>
              (\<exists>tr. Publish (emitter w2) T msg ks = Inr tr \<and>
                 length (filter (invoked_for S) tr) = 1 \<and> Invoke cb2 S msg \<in> set tr))"
proof -
  from Subscribe_effect [OF assms(1), of S T cb1] obtain w1
    where w1: "Subscribe w S T cb1 = Inr w1" "wf_emitter (emitter w1)"
      "\<forall>T'. registration (emitter w1) T' =
         (if T' = T then fmupd (id' S) \<lparr>suber = S, cb = cb1\<rparr> (registration (emitter w) T)
          else registration (emitter w) T')"
    by blast
  from Subscribe_effect [OF w1(2), of S T cb2] obtain w2
    where w2: "Subscribe w1 S T cb2 = Inr w2" "wf_emitter (emitter w2)"
      "\<forall>T'. registration (emitter w2) T' =
         (if T' = T then fmupd (id' S) \<lparr>suber = S, cb = cb2\<rparr> (registration (emitter w1) T)
          else registration (emitter w1) T')"
    by blast
  have k1: "keyed_by_id (emitter w1)" by (rule keyed_by_id_Subscribe [OF assms(2) w1(3)])
  have k2: "keyed_by_id (emitter w2)" by (rule keyed_by_id_Subscribe [OF k1 w2(3)])
  have reg: "fmlookup (registration (emitter w2) T) (id' S) = Some \<lparr>suber = S, cb = cb2\<rparr>"
    by (simp add: w2(3))
  have uniq: "\<forall>k v. fmlookup (registration (emitter w2) T) k = Some v \<and> suber v = S \<longrightarrow>
      k = id' S \<and> cb v = cb2"
  proof (intro allI impI)
    fix k v
    assume kv: "fmlookup (registration (emitter w2) T) k = Some v \<and> suber v = S"
    with k2 have "k = id' S" by (auto simp: keyed_by_id_def)
    with kv reg show "k = id' S \<and> cb v = cb2" by auto
  qed
  have "fmdom (registration (emitter w2) T) = fmdom (registration (emitter w1) T)"
    by (simp add: w2(3) w1(3))
  then have count: "\<exists>n. CountSubscriberByTopic (emitter w1) T = Inr n \<and>
      CountSubscriberByTopic (emitter w2) T = Inr n"
    by (simp add: CountSubscriberByTopic_registration w1(2) w2(2))
  have pub: "\<forall>msg ks. range_order (registration (emitter w2) T) ks \<longrightarrow>
      (\<exists>tr. Publish (emitter w2) T msg ks = Inr tr \<and>
         length (filter (invoked_for S) tr) = 1 \<and> Invoke cb2 S msg \<in> set tr)"
    using Publish_one_invocation [OF w2(2) k2 reg] by blast
  show ?thesis
    by (rule exI [of _ w1], rule exI [of _ w2]) (intro conjI w1(1) w2(1) reg uniq count pub)
qed

text \<open>
  In the example state, \<open>B\<close> subscribes twice to \<open>greet\<close>, to which \<open>A\<close> is subscribed.
\<close>

theorem resubscribe_replaces_callback_witness:
  "wf_emitter (emitter ex_world) \<and> keyed_by_id (emitter ex_world) \<and>
   (\<exists>w1 w2. Subscribe ex_world ex_B ''greet'' ex_ok = Inr w1 \<and>
      Subscribe w1 ex_B ''greet'' ex_fail = Inr w2 \<and>
      CountSubscriberByTopic (emitter w1) ''greet'' = Inr 2 \<and>
      CountSubscriberByTopic (emitter w2) ''greet'' = Inr 2 \<and>
      range_order (registration (emitter w2) ''greet'') [''A'', ''B''] \<and>
      (\<exists>tr. Publish (emitter w2) ''greet'' ANil [''A'', ''B''] = Inr tr \<and>
         length (filter (invoked_for ex_B) tr) = 1 \<and> Invoke ex_fail ex_B ANil \<in> set tr))"
proof -
  from resubscribe_replaces_callback [OF ex_world_wf ex_world_keyed, of ex_B "''greet''" ex_ok ex_fail]
  obtain w1 w2 where s1: "Subscribe ex_world ex_B ''greet'' ex_ok = Inr w1"
    and s2: "Subscribe w1 ex_B ''greet'' ex_fail = Inr w2"
    and cnt0: "\<exists>n. CountSubscriberByTopic (emitter w1) ''greet'' = Inr n \<and>
        CountSubscriberByTopic (emitter w2) ''greet'' = Inr n"
    and pub: "\<forall>msg ks. range_order (registration (emitter w2) ''greet'') ks \<longrightarrow>
        (\<exists>tr. Publish (emitter w2) ''greet'' msg ks = Inr tr \<and>
           length (filter (invoked_for ex_B) tr) = 1 \<and> Invoke ex_fail ex_B msg \<in> set tr)"
    by blast
  from Subscribe_effect [OF ex_world_wf, of ex_B "''greet''" ex_ok] s1
  have w1: "wf_emitter (emitter w1)"
    "registration (emitter w1) ''greet'' =
       fmupd (id' ex_B) \<lparr>suber = ex_B, cb = ex_ok\<rparr> (registration (emitter ex_world) ''greet'')"
    by auto
  from Subscribe_effect [OF w1(1), of ex_B "''greet''" ex_fail] s2
  have "registration (emitter w2) ''greet'' =
       fmupd (id' ex_B) \<lparr>suber = ex_B, cb = ex_fail\<rparr> (registration (emitter w1) ''greet'')"
    by auto
  then have ord: "range_order (registration (emitter w2) ''greet'') [''A'', ''B'']"
    by (auto simp: w1(2) ex_emitter_world ex_registration_greet range_order_def ex_B_def)
  with pub have "\<exists>tr. Publish (emitter w2) ''greet'' ANil [''A'', ''B''] = Inr tr \<and>
      length (filter (invoked_for ex_B) tr) = 1 \<and> Invoke ex_fail ex_B ANil \<in> set tr"
    by blast
  moreover have "CountSubscriberByTopic (emitter w1) ''greet'' = Inr 2"
    by (simp add: CountSubscriberByTopic_registration w1 ex_emitter_world ex_registration_greet
        fcard_finsert_if ex_B_def)
  with cnt0 have "CountSubscriberByTopic (emitter w1) ''greet'' = Inr 2 \<and>
      CountSubscriberByTopic (emitter w2) ''greet'' = Inr 2" by auto
  ultimately show ?thesis using s1 s2 ord ex_world_wf ex_world_keyed by blast
qed

section \<open>UnSubscribe\<close>

text \<open>
  Claim C6. In a well-formed state where the reserved keys of the store of \<open>S\<close> hold what
  \<open>Subscribe\<close> wrote, \<open>UnSubscribe\<close> of \<open>S\<close> from \<open>T\<close> returns normally, and a second
  \<open>UnSubscribe\<close> of \<open>S\<close> from \<open>T\<close> returns the state unchanged. When \<open>S\<close> is subscribed to \<open>T\<close>
  (its store has the key of \<open>T\<close> and its id is registered to \<open>T\<close>), the topics of \<open>S\<close> no
  longer contain \<open>T\<close> afterwards and \<open>CountSubscriberByTopic\<close> of \<open>T\<close> is smaller by exactly
  one. When neither the key nor the id is there (the topic or the subscriber is not
  registered), the first call already returns the state unchanged.
\<close>

theorem UnSubscribe_removes_one_subscription:
  assumes "wf_emitter (emitter w)" and "written_by_Subscribe (stores w (md S))"
  shows "\<exists>w'. UnSubscribe w S T = Inr w' \<and> UnSubscribe w' S T = Inr w' \<and>
           (subTopic @ T |\<in>| fmdom (stores w (md S)) \<and>
            id' S |\<in>| fmdom (registration (emitter w) T) \<longrightarrow>
              (\<forall>ks. range_order (stores w' (md S)) ks \<longrightarrow>
                 (\<exists>ts. GetTopicsBySubscriber w' S ks = Inr ts \<and> T \<notin> set ts)) \<and>
              (\<exists>n. CountSubscriberByTopic (emitter w) T = Inr (Suc n) \<and>
                    CountSubscriberByTopic (emitter w') T = Inr n)) \<and>
           (subTopic @ T |\<notin>| fmdom (stores w (md S)) \<and>
            id' S |\<notin>| fmdom (registration (emitter w) T) \<longrightarrow> w' = w)"
proof -
  let ?m = "stores w (md S)" and ?reg = "registration (emitter w) T"
  from UnSubscribe_effect [OF assms(1), of S T] obtain w'
    where w': "UnSubscribe w S T = Inr w'" "wf_emitter (emitter w')"
      "stores w' = (stores w)(md S := fmdrop (subTopic @ T) ?m)"
      "\<forall>T'. registration (emitter w') T' =
         (if T' = T then fmdrop (id' S) ?reg else registration (emitter w) T')"
    by blast
  have st: "stores w' (md S) = fmdrop (subTopic @ T) ?m" by (simp add: w'(3))
  have again: "UnSubscribe w' S T = Inr w'"
    by (rule UnSubscribe_noop [OF w'(2)]) (simp_all add: st w'(4))
  have wr': "written_by_Subscribe (stores w' (md S))"
    by (simp add: st written_by_Subscribe_Delete [OF assms(2)])
  have topics: "\<forall>ks. range_order (stores w' (md S)) ks \<longrightarrow>
      (\<exists>ts. GetTopicsBySubscriber w' S ks = Inr ts \<and> T \<notin> set ts)"
  proof (intro allI impI)
    fix ks
    assume "range_order (stores w' (md S)) ks"
    from GetTopicsBySubscriber_topics [OF this wr'] obtain ts
      where ts: "GetTopicsBySubscriber w' S ks = Inr ts"
        "set ts = {T. subTopic @ T |\<in>| fmdom (stores w' (md S))}" by blast
    then have "T \<notin> set ts" by (simp add: st)
    with ts(1) show "\<exists>ts. GetTopicsBySubscriber w' S ks = Inr ts \<and> T \<notin> set ts" by blast
  qed
  have count: "\<exists>n. CountSubscriberByTopic (emitter w) T = Inr (Suc n) \<and>
      CountSubscriberByTopic (emitter w') T = Inr n"
    if "id' S |\<in>| fmdom ?reg"
  proof -
    have "fcard (fmdom ?reg) = Suc (fcard (fmdom ?reg |-| {|id' S|}))"
      using that by (rule fcard_Suc_fminus1 [symmetric])
    then show ?thesis
      by (simp add: CountSubscriberByTopic_registration assms(1) w'(2) w'(4))
  qed
  have noop: "w' = w"
    if "subTopic @ T |\<notin>| fmdom ?m \<and> id' S |\<notin>| fmdom ?reg"
    using UnSubscribe_noop [OF assms(1), of T S] that w'(1) by simp
  show ?thesis
    by (rule exI [of _ w']) (use w'(1) again topics count noop in blast)
qed

text \<open>
  In the example state, \<open>A\<close> unsubscribes from \<open>test\<close> (two subscribers before, one after),
  and \<open>B\<close> unsubscribes from \<open>greet\<close>, to which it is not subscribed.
\<close>

theorem UnSubscribe_removes_one_subscription_witness:
  "wf_emitter (emitter ex_world) \<and> written_by_Subscribe (stores ex_world (md ex_A)) \<and>
   subTopic @ ''test'' |\<in>| fmdom (stores ex_world (md ex_A)) \<and>
   id' ex_A |\<in>| fmdom (registration (emitter ex_world) ''test'') \<and>
   (\<exists>w'. UnSubscribe ex_world ex_A ''test'' = Inr w' \<and> UnSubscribe w' ex_A ''test'' = Inr w' \<and>
      range_order (stores w' (md ex_A)) [''sub-topic-greet''] \<and>
      (\<exists>ts. GetTopicsBySubscriber w' ex_A [''sub-topic-greet''] = Inr ts \<and> ''test'' \<notin> set ts) \<and>
      CountSubscriberByTopic (emitter ex_world) ''test'' = Inr 2 \<and>
      CountSubscriberByTopic (emitter w') ''test'' = Inr 1) \<and>
   written_by_Subscribe (stores ex_world (md ex_B)) \<and>
   subTopic @ ''greet'' |\<notin>| fmdom (stores ex_world (md ex_B)) \<and>
   id' ex_B |\<notin>| fmdom (registration (emitter ex_world) ''greet'') \<and>
   UnSubscribe ex_world ex_B ''greet'' = Inr ex_world"
proof -
  have h1: "subTopic @ ''test'' |\<in>| fmdom (stores ex_world (md ex_A))"
    by (simp add: ex_A_store subTopic_def)
  have h2: "id' ex_A |\<in>| fmdom (registration (emitter ex_world) ''test'')"
    by (simp add: ex_emitter_world ex_registration_test ex_A_def)
  have h3: "subTopic @ ''greet'' |\<notin>| fmdom (stores ex_world (md ex_B))"
    by (simp add: ex_B_store subTopic_def)
  have h4: "id' ex_B |\<notin>| fmdom (registration (emitter ex_world) ''greet'')"
    by (simp add: ex_emitter_world ex_registration_greet ex_B_def)
  from UnSubscribe_removes_one_subscription [OF ex_world_wf ex_A_written, of "''test''"] h1 h2
  obtain w' n where w': "UnSubscribe ex_world ex_A ''test'' = Inr w'"
    "UnSubscribe w' ex_A ''test'' = Inr w'"
    and tops: "\<forall>ks. range_order (stores w' (md ex_A)) ks \<longrightarrow>
        (\<exists>ts. GetTopicsBySubscriber w' ex_A ks = Inr ts \<and> ''test'' \<notin> set ts)"
    and cnt: "CountSubscriberByTopic (emitter ex_world) ''test'' = Inr (Suc n)"
      "CountSubscriberByTopic (emitter w') ''test'' = Inr n"
    by blast
  have "CountSubscriberByTopic (emitter ex_world) ''test'' = Inr 2"
    by (simp add: CountSubscriberByTopic_registration ex_wf ex_emitter_world
        ex_registration_test fcard_finsert_if)
  with cnt have cnt': "CountSubscriberByTopic (emitter ex_world) ''test'' = Inr 2"
    "CountSubscriberByTopic (emitter w') ''test'' = Inr 1" by simp_all
  from UnSubscribe_effect [OF ex_world_wf, of ex_A "''test''"] w'(1)
  have "stores w' (md ex_A) = fmdrop (subTopic @ ''test'') (stores ex_world (md ex_A))"
    by auto
  then have ord: "range_order (stores w' (md ex_A)) [''sub-topic-greet'']"
    by (auto simp: ex_A_store subTopic_def range_order_def fmdrop_fmupd)
  with tops have "\<exists>ts. GetTopicsBySubscriber w' ex_A [''sub-topic-greet''] = Inr ts \<and> ''test'' \<notin> set ts"
    by blast
  with w' ord cnt' have first: "\<exists>w'. UnSubscribe ex_world ex_A ''test'' = Inr w' \<and>
      UnSubscribe w' ex_A ''test'' = Inr w' \<and>
      range_order (stores w' (md ex_A)) [''sub-topic-greet''] \<and>
      (\<exists>ts. GetTopicsBySubscriber w' ex_A [''sub-topic-greet''] = Inr ts \<and> ''test'' \<notin> set ts) \<and>
      CountSubscriberByTopic (emitter ex_world) ''test'' = Inr 2 \<and>
      CountSubscriberByTopic (emitter w') ''test'' = Inr 1"
    by blast
  from UnSubscribe_removes_one_subscription [OF ex_world_wf ex_B_written, of "''greet''"] h3 h4
  have second: "UnSubscribe ex_world ex_B ''greet'' = Inr ex_world" by auto
  show ?thesis using first second h1 h2 h3 h4 ex_world_wf ex_A_written ex_B_written by blast
qed

section \<open>The number of buckets\<close>

text \<open>
  Claim C7 says that \<open>New\<close> returns for every configured \<open>BucketNum\<close>, with a number of
  buckets that is a power of two: 16 for a configured number of at most 0, otherwise the
  smallest power of two that is not below it. Up to \<open>2 ^ 62\<close> the rounding is as the claim
  says (\<open>New_rounds_up\<close>). Above, the code does not do it: at \<open>BucketNum = 2 ^ 62 + 1\<close> the
  loop of \<open>toBinaryNumber\<close> doubles \<open>x\<close> up to \<open>2 ^ 62\<close>, which is still below \<open>n\<close>; the next
  doubling wraps to \<open>- 2 ^ 63\<close>, the one after to \<open>0\<close>, and \<open>0 < n\<close> holds for ever. \<open>New\<close>
  does not return, whatever the seed and the limit of \<open>make\<close>.
\<close>

theorem New_does_not_return_above_2_62:
  "New maxAlloc sd (Some \<lparr>BucketNum = 2 ^ 62 + 1, BucketSize = 0\<rparr>) = None"
  by (rule New_never_returns) simp

section \<open>Publishing without subscribers\<close>

text \<open>
  Claim C8, as amended. Publishing to a topic that has no registered subscriber (no
  registration map, or an empty one) makes no call and returns normally, for every message
  and every order; the empty string is such a topic as long as nobody has subscribed to it.
\<close>

theorem Publish_without_subscribers:
  assumes "wf_emitter c" and "registration c T = fmempty"
  shows "Publish c T msg ks = Inr []"
proof -
  have "Publish c T msg ks =
      Inr (map (\<lambda>(_, v). Invoke (cb v) (suber v) msg) (go_range (registration c T) ks))"
    by (rule Publish_registration [OF assms(1)])
  also have "go_range (registration c T) ks = []"
    by (simp only: assms(2) go_range_empty)
  finally show ?thesis by simp
qed

text \<open>In the example state nobody is subscribed to the empty topic.\<close>

theorem Publish_without_subscribers_witness:
  "wf_emitter ex_emitter \<and> registration ex_emitter '''' = fmempty \<and>
   Publish ex_emitter '''' (AInt 1) [] = Inr []"
  using Publish_without_subscribers [OF ex_wf ex_registration_empty, of "AInt 1" "[]"]
  by (simp add: ex_wf ex_registration_empty)

text \<open>
  Claim C8 as stated fails for the empty-string topic: it is a topic like any other. After
  \<open>A\<close> has subscribed to it on a fresh emitter, publishing to it calls the callback of \<open>A\<close>.
\<close>

theorem Publish_empty_topic_counterexample:
  "Subscribe ex_new ex_A [] ex_ok = Inr ex_empty_topic \<and>
   Publish (emitter ex_empty_topic) [] (AInt 1) [''A''] = Inr [Invoke ex_ok ex_A (AInt 1)]"
proof (intro conjI)
  show "Subscribe ex_new ex_A [] ex_ok = Inr ex_empty_topic"
    by (simp add: ex_new_def ex_empty_topic_def ex_A_def ex_seed_def Subscribe_def
        on_bucket_def on_metadata_def getBucket_def subscribe_def smap_Store_def subTopic_def
        Let_def)
  show "Publish (emitter ex_empty_topic) [] (AInt 1) [''A''] = Inr [Invoke ex_ok ex_A (AInt 1)]"
    by (simp add: ex_empty_topic_def Publish_def publish_def getBucket_def ex_seed_def)
qed

section \<open>Subscribers with the same id\<close>

text \<open>
  Claim C9. In a well-formed state whose registrations are stored under the ids of their
  subscribers, let \<open>S1\<close> and \<open>S2\<close> be distinct subscribers with the same id. Subscribing \<open>S1\<close>
  and then \<open>S2\<close> to \<open>T\<close> returns normally; the registration map of \<open>T\<close> holds \<open>S2\<close> with its
  callback under that id; \<open>CountSubscriberByTopic\<close> counts the id once (the second
  subscription does not change the count, which is the number of ids registered before
  together with this one); and a later \<open>Publish\<close> to \<open>T\<close> makes no call for \<open>S1\<close> and exactly
  one call for \<open>S2\<close>, the call of the callback of \<open>S2\<close>.
\<close>

theorem same_id_overwrites:
  assumes "wf_emitter (emitter w)" and "keyed_by_id (emitter w)"
    and "id' S1 = id' S2" and "S1 \<noteq> S2"
  shows "\<exists>w1 w2. Subscribe w S1 T cb1 = Inr w1 \<and> Subscribe w1 S2 T cb2 = Inr w2 \<and>
           fmlookup (registration (emitter w2) T) (id' S2) = Some \<lparr>suber = S2, cb = cb2\<rparr> \<and>
           CountSubscriberByTopic (emitter w2) T = CountSubscriberByTopic (emitter w1) T \<and>
           CountSubscriberByTopic (emitter w2) T =
             Inr (fcard (finsert (id' S2) (fmdom (registration (emitter w) T)))) \<and>
           (\<forall>msg ks. range_order (registration (emitter w2) T) ks \<longrightarrow>
              (\<exists>tr. Publish (emitter w2) T msg ks = Inr tr \<and>
                 (\<forall>e\<in>set tr. \<not> invoked_for S1 e) \<and>
                 length (filter (invoked_for S2) tr) = 1 \<and> Invoke cb2 S2 msg \<in> set tr))"
proof -
  from Subscribe_effect [OF assms(1), of S1 T cb1] obtain w1
    where w1: "Subscribe w S1 T cb1 = Inr w1" "wf_emitter (emitter w1)"
      "\<forall>T'. registration (emitter w1) T' =
         (if T' = T then fmupd (id' S1) \<lparr>suber = S1, cb = cb1\<rparr> (registration (emitter w) T)
          else registration (emitter w) T')"
    by blast
  from Subscribe_effect [OF w1(2), of S2 T cb2] obtain w2
    where w2: "Subscribe w1 S2 T cb2 = Inr w2" "wf_emitter (emitter w2)"
      "\<forall>T'. registration (emitter w2) T' =
         (if T' = T then fmupd (id' S2) \<lparr>suber = S2, cb = cb2\<rparr> (registration (emitter w1) T)
          else registration (emitter w1) T')"
    by blast
  have k1: "keyed_by_id (emitter w1)" by (rule keyed_by_id_Subscribe [OF assms(2) w1(3)])
  have k2: "keyed_by_id (emitter w2)" by (rule keyed_by_id_Subscribe [OF k1 w2(3)])
  have reg: "fmlookup (registration (emitter w2) T) (id' S2) = Some \<lparr>suber = S2, cb = cb2\<rparr>"
    by (simp add: w2(3))
  have dom2: "fmdom (registration (emitter w2) T) =
      finsert (id' S2) (fmdom (registration (emitter w) T))"
    by (simp add: w2(3) w1(3) assms(3))
  have dom1: "fmdom (registration (emitter w1) T) =
      finsert (id' S2) (fmdom (registration (emitter w) T))"
    by (simp add: w1(3) assms(3))
  have count: "CountSubscriberByTopic (emitter w2) T = CountSubscriberByTopic (emitter w1) T"
    by (simp add: CountSubscriberByTopic_registration w1(2) w2(2) dom1 dom2)
  have count': "CountSubscriberByTopic (emitter w2) T =
      Inr (fcard (finsert (id' S2) (fmdom (registration (emitter w) T))))"
    by (simp add: CountSubscriberByTopic_registration w2(2) dom2)
  have pub: "\<forall>msg ks. range_order (registration (emitter w2) T) ks \<longrightarrow>
      (\<exists>tr. Publish (emitter w2) T msg ks = Inr tr \<and>
         (\<forall>e\<in>set tr. \<not> invoked_for S1 e) \<and>
         length (filter (invoked_for S2) tr) = 1 \<and> Invoke cb2 S2 msg \<in> set tr)"
  proof (intro allI impI)
    fix msg ks
    assume ord: "range_order (registration (emitter w2) T) ks"
    from Publish_one_invocation [OF w2(2) k2 reg ord, of msg] obtain tr
      where tr: "Publish (emitter w2) T msg ks = Inr tr"
        "length (filter (invoked_for S2) tr) = 1" "Invoke cb2 S2 msg \<in> set tr" by blast
    from Publish_only_registered [OF w2(2) tr(1)]
    have from_reg: "\<forall>e\<in>set tr. \<exists>sid v. fmlookup (registration (emitter w2) T) sid = Some v \<and>
        e = Invoke (cb v) (suber v) msg" .
    have "\<not> invoked_for S1 e" if "e \<in> set tr" for e
    proof
      assume inv: "invoked_for S1 e"
      from from_reg that obtain sid v
        where v: "fmlookup (registration (emitter w2) T) sid = Some v"
          "e = Invoke (cb v) (suber v) msg" by blast
      with inv have s: "suber v = S1" by simp
      with v(1) k2 have "sid = id' S1" by (auto simp: keyed_by_id_def)
      with v(1) reg assms(3) have "v = \<lparr>suber = S2, cb = cb2\<rparr>" by simp
      with s assms(4) show False by simp
    qed
    with tr show "\<exists>tr. Publish (emitter w2) T msg ks = Inr tr \<and>
        (\<forall>e\<in>set tr. \<not> invoked_for S1 e) \<and>
        length (filter (invoked_for S2) tr) = 1 \<and> Invoke cb2 S2 msg \<in> set tr" by blast
  qed
  show ?thesis
    by (rule exI [of _ w1], rule exI [of _ w2])
       (intro conjI w1(1) w2(1) reg count count' pub)
qed

text \<open>
  In the example state, \<open>A\<close> and then \<open>ex_C\<close>, which has the id of \<open>A\<close>, subscribe to \<open>chat\<close>:
  one subscriber is counted, and only the callback of \<open>ex_C\<close> is called.
\<close>

theorem same_id_overwrites_witness:
  "wf_emitter (emitter ex_world) \<and> keyed_by_id (emitter ex_world) \<and>
   id' ex_A = id' ex_C \<and> ex_A \<noteq> ex_C \<and>
   (\<exists>w1 w2. Subscribe ex_world ex_A ''chat'' ex_ok = Inr w1 \<and>
      Subscribe w1 ex_C ''chat'' ex_fail = Inr w2 \<and>
      CountSubscriberByTopic (emitter w2) ''chat'' = Inr 1 \<and>
      range_order (registration (emitter w2) ''chat'') [''A''] \<and>
      (\<exists>tr. Publish (emitter w2) ''chat'' ANil [''A''] = Inr tr \<and>
         (\<forall>e\<in>set tr. \<not> invoked_for ex_A e) \<and>
         length (filter (invoked_for ex_C) tr) = 1 \<and> Invoke ex_fail ex_C ANil \<in> set tr))"
proof -
  have same: "id' ex_A = id' ex_C" and diff: "ex_A \<noteq> ex_C"
    by (simp_all add: ex_A_def ex_C_def)
  from same_id_overwrites [OF ex_world_wf ex_world_keyed same diff, of "''chat''" ex_ok ex_fail]
  obtain w1 w2 where s1: "Subscribe ex_world ex_A ''chat'' ex_ok = Inr w1"
    and s2: "Subscribe w1 ex_C ''chat'' ex_fail = Inr w2"
    and cnt: "CountSubscriberByTopic (emitter w2) ''chat'' =
        Inr (fcard (finsert (id' ex_C) (fmdom (registration (emitter ex_world) ''chat''))))"
    and pub: "\<forall>msg ks. range_order (registration (emitter w2) ''chat'') ks \<longrightarrow>
        (\<exists>tr. Publish (emitter w2) ''chat'' msg ks = Inr tr \<and>
           (\<forall>e\<in>set tr. \<not> invoked_for ex_A e) \<and>
           length (filter (invoked_for ex_C) tr) = 1 \<and> Invoke ex_fail ex_C msg \<in> set tr)"
    by blast
  have one: "CountSubscriberByTopic (emitter w2) ''chat'' = Inr 1"
    by (simp add: cnt ex_emitter_world ex_registration_chat fcard_finsert_if)
  from Subscribe_effect [OF ex_world_wf, of ex_A "''chat''" ex_ok] s1
  have w1: "wf_emitter (emitter w1)"
    "registration (emitter w1) ''chat'' =
       fmupd (id' ex_A) \<lparr>suber = ex_A, cb = ex_ok\<rparr> (registration (emitter ex_world) ''chat'')"
    by auto
  from Subscribe_effect [OF w1(1), of ex_C "''chat''" ex_fail] s2
  have "registration (emitter w2) ''chat'' =
       fmupd (id' ex_C) \<lparr>suber = ex_C, cb = ex_fail\<rparr> (registration (emitter w1) ''chat'')"
    by auto
  then have ord: "range_order (registration (emitter w2) ''chat'') [''A'']"
    by (simp add: w1(2) ex_emitter_world ex_registration_chat range_order_def ex_A_def ex_C_def)
  with pub have "\<exists>tr. Publish (emitter w2) ''chat'' ANil [''A''] = Inr tr \<and>
      (\<forall>e\<in>set tr. \<not> invoked_for ex_A e) \<and>
      length (filter (invoked_for ex_C) tr) = 1 \<and> Invoke ex_fail ex_C ANil \<in> set tr"
    by blast
  with s1 s2 one ord show ?thesis using ex_world_wf ex_world_keyed same diff by blast
qed

section \<open>The type assertion on stored topics\<close>

text \<open>
  Claim C10. \<open>GetTopicsBySubscriber\<close> and \<open>UnSubscribeAll\<close> assert that the value of every
  entry whose key starts with \<open>sub-topic-\<close> is a string. In a well-formed state, for every
  order of the visit: when the reserved keys of the store hold what \<open>Subscribe\<close> wrote,
  neither of the two panics, and the list \<open>GetTopicsBySubscriber\<close> returns has exactly the
  values stored under these keys as its elements; when some entry under such a key holds a
  value that is not a string, both panic with a failed interface conversion.
\<close>

theorem reverse_index_casts:
  assumes "wf_emitter (emitter w)" and "range_order (stores w (md S)) ks"
  shows "(written_by_Subscribe (stores w (md S)) \<longrightarrow>
            (\<exists>ts. GetTopicsBySubscriber w S ks = Inr ts \<and>
               AStr ` set ts =
                 {v. \<exists>k. fmlookup (stores w (md S)) k = Some v \<and> prefix subTopic k}) \<and>
            (\<exists>w'. UnSubscribeAll w S ks = Inr w')) \<and>
         ((\<exists>k v. fmlookup (stores w (md S)) k = Some v \<and> prefix subTopic k \<and> (\<forall>t. v \<noteq> AStr t)) \<longrightarrow>
            GetTopicsBySubscriber w S ks = Inl InterfaceConversion \<and>
            UnSubscribeAll w S ks = Inl InterfaceConversion)"
proof (intro conjI impI)
  assume wr: "written_by_Subscribe (stores w (md S))"
  from smap_Range_collect [OF assms(2) written_by_Subscribe_strings [OF wr]]
  show "\<exists>ts. GetTopicsBySubscriber w S ks = Inr ts \<and>
      AStr ` set ts = {v. \<exists>k. fmlookup (stores w (md S)) k = Some v \<and> prefix subTopic k}"
    by (simp add: GetTopicsBySubscriber_def)
  from UnSubscribeAll_effect [OF assms(1) wr assms(2)]
  show "\<exists>w'. UnSubscribeAll w S ks = Inr w'" by blast
next
  assume "\<exists>k v. fmlookup (stores w (md S)) k = Some v \<and> prefix subTopic k \<and> (\<forall>t. v \<noteq> AStr t)"
  then obtain k v where bad: "fmlookup (stores w (md S)) k = Some v" "prefix subTopic k"
    "\<forall>t. v \<noteq> AStr t" by blast
  from smap_Range_panics [OF assms(2) bad]
  show "GetTopicsBySubscriber w S ks = Inl InterfaceConversion"
    and "UnSubscribeAll w S ks = Inl InterfaceConversion"
    by (simp_all add: GetTopicsBySubscriber_def UnSubscribeAll_def)
qed

text \<open>
  In the example state the store of \<open>A\<close> is as \<open>Subscribe\<close> wrote it; after the caller has
  stored a number under \<open>sub-topic-x\<close> in the store of \<open>B\<close>, both functions panic for \<open>B\<close>.
\<close>

theorem reverse_index_casts_witness:
  "wf_emitter (emitter ex_world) \<and>
   range_order (stores ex_world (md ex_A)) [''sub-topic-greet'', ''sub-topic-test''] \<and>
   written_by_Subscribe (stores ex_world (md ex_A)) \<and>
   (\<exists>ts. GetTopicsBySubscriber ex_world ex_A [''sub-topic-greet'', ''sub-topic-test''] = Inr ts) \<and>
   (\<exists>w'. UnSubscribeAll ex_world ex_A [''sub-topic-greet'', ''sub-topic-test''] = Inr w') \<and>
   wf_emitter (emitter ex_caller_stored) \<and>
   range_order (stores ex_caller_stored (md ex_B)) [''sub-topic-test'', ''sub-topic-x''] \<and>
   fmlookup (stores ex_caller_stored (md ex_B)) ''sub-topic-x'' = Some (AInt 7) \<and>
   prefix subTopic ''sub-topic-x'' \<and>
   GetTopicsBySubscriber ex_caller_stored ex_B [''sub-topic-test'', ''sub-topic-x''] =
     Inl InterfaceConversion \<and>
   UnSubscribeAll ex_caller_stored ex_B [''sub-topic-test'', ''sub-topic-x''] =
     Inl InterfaceConversion"
proof -
  have wf: "wf_emitter (emitter ex_caller_stored)"
    using ex_world_wf by (simp add: ex_caller_stored_def)
  have ord: "range_order (stores ex_caller_stored (md ex_B)) [''sub-topic-test'', ''sub-topic-x'']"
    by (auto simp: ex_caller_stored_store range_order_def)
  have bad: "fmlookup (stores ex_caller_stored (md ex_B)) ''sub-topic-x'' = Some (AInt 7)"
    "prefix subTopic ''sub-topic-x''"
    by (simp_all add: ex_caller_stored_store subTopic_def)
  from reverse_index_casts [OF ex_world_wf ex_A_order] ex_A_written
  have first: "(\<exists>ts. GetTopicsBySubscriber ex_world ex_A [''sub-topic-greet'', ''sub-topic-test''] = Inr ts) \<and>
      (\<exists>w'. UnSubscribeAll ex_world ex_A [''sub-topic-greet'', ''sub-topic-test''] = Inr w')"
    by blast
  from reverse_index_casts [OF wf ord] bad
  have second: "GetTopicsBySubscriber ex_caller_stored ex_B [''sub-topic-test'', ''sub-topic-x''] =
       Inl InterfaceConversion \<and>
     UnSubscribeAll ex_caller_stored ex_B [''sub-topic-test'', ''sub-topic-x''] =
       Inl InterfaceConversion"
    by blast
  show ?thesis using first second wf ord bad ex_world_wf ex_A_order ex_A_written by blast
qed

end
